theory Spec2Isabelle
  imports Main "HOL-Library.Multiset"
begin

section \<open>The Hua Rong Dao solver (hrd.py): data model\<close>

text \<open>
  Python exceptions the modelled code can raise: an out-of-range write to the grid
  (\<open>IndexError\<close>) and subscripting the \<open>None\<close> that \<open>get_goal\<close> returns on a board
  without goal piece (\<open>TypeError\<close>).
\<close>

datatype error = IndexError | TypeError

definition ebind :: "error + 'a \<Rightarrow> ('a \<Rightarrow> error + 'b) \<Rightarrow> error + 'b" where
  "ebind m k = (case m of Inl e \<Rightarrow> Inl e | Inr v \<Rightarrow> k v)"

definition char_goal :: char where
  "char_goal = CHR ''1''"

definition char_single :: char where
  "char_single = CHR ''2''"

text \<open>
  \<open>class Piece\<close>: the five attributes set by \<open>__init__\<close>. The orientation is a Python
  string or \<open>None\<close>.
\<close>

datatype piece = Piece (is_goal: bool) (is_single: bool) (coord_x: int) (coord_y: int)
  (orientation: "string option")

text \<open>
  \<open>class Board\<close>: the piece list and the grid derived from it by \<open>__construct_grid\<close>
  (\<open>width = 4\<close> and \<open>height = 5\<close> are constants of every board). \<open>BoardObj\<close> is the bare
  object; the function \<open>Board\<close> below is the constructor \<open>Board.__init__\<close>.
\<close>

datatype board = BoardObj (pieces: "piece list") (grid: "char list list")

definition width :: nat where
  "width = 4"

definition height :: nat where
  "height = 5"

text \<open>
  Python list indexing \<open>xs[i]\<close>: an index in \<open>[0, n)\<close> is itself, one in \<open>[-n, 0)\<close>
  counts from the end, every other index raises \<open>IndexError\<close>.
\<close>

definition py_index :: "nat \<Rightarrow> int \<Rightarrow> nat option" where
  "py_index n i =
     (if 0 \<le> i \<and> i < int n then Some (nat i)
      else if - int n \<le> i \<and> i < 0 then Some (nat (int n + i))
      else None)"

text \<open>The assignment \<open>grid[y][x] = c\<close>.\<close>

definition set_cell :: "char list list \<Rightarrow> int \<Rightarrow> int \<Rightarrow> char \<Rightarrow> error + char list list" where
  "set_cell g y x c =
     (case py_index (length g) y of
        None \<Rightarrow> Inl IndexError
      | Some r \<Rightarrow>
          (case py_index (length (g ! r)) x of
             None \<Rightarrow> Inl IndexError
           | Some k \<Rightarrow> Inr (g[r := (g ! r)[k := c]])))"

text \<open>The body of the loop \<open>for piece in self.pieces\<close> of \<open>__construct_grid\<close>.\<close>

definition place_piece :: "char list list \<Rightarrow> piece \<Rightarrow> error + char list list" where
  "place_piece g p =
     (if is_goal p then
        ebind (set_cell g (coord_y p) (coord_x p) char_goal) (\<lambda>g1.
        ebind (set_cell g1 (coord_y p) (coord_x p + 1) char_goal) (\<lambda>g2.
        ebind (set_cell g2 (coord_y p + 1) (coord_x p) char_goal) (\<lambda>g3.
        set_cell g3 (coord_y p + 1) (coord_x p + 1) char_goal)))
      else if is_single p then
        set_cell g (coord_y p) (coord_x p) char_single
      else if orientation p = Some ''h'' then
        ebind (set_cell g (coord_y p) (coord_x p) (CHR ''<'')) (\<lambda>g1.
        set_cell g1 (coord_y p) (coord_x p + 1) (CHR ''>''))
      else if orientation p = Some ''v'' then
        ebind (set_cell g (coord_y p) (coord_x p) (CHR ''^'')) (\<lambda>g1.
        set_cell g1 (coord_y p + 1) (coord_x p) (CHR ''v''))
      else Inr g)"

fun place_pieces :: "char list list \<Rightarrow> piece list \<Rightarrow> error + char list list" where
  "place_pieces g [] = Inr g"
| "place_pieces g (p # ps) = ebind (place_piece g p) (\<lambda>g'. place_pieces g' ps)"

definition blank_grid :: "char list list" where
  "blank_grid = replicate height (replicate width (CHR ''.''))"

definition construct_grid :: "piece list \<Rightarrow> error + char list list" where
  "construct_grid ps = place_pieces blank_grid ps"

text \<open>\<open>Board(pieces)\<close>: the constructor; it raises what \<open>__construct_grid\<close> raises.\<close>

definition Board :: "piece list \<Rightarrow> error + board" where
  "Board ps = ebind (construct_grid ps) (\<lambda>g. Inr (BoardObj ps g))"

text \<open>\<open>Board.empty_spaces\<close>: the \<open>[i, j]\<close> (row, column) pairs of the cells holding a dot.\<close>

definition empty_spaces :: "board \<Rightarrow> (int \<times> int) list" where
  "empty_spaces b =
     concat (map (\<lambda>i. concat (map (\<lambda>j.
       if grid b ! i ! j = CHR ''.'' then [(int i, int j)] else []) [0..<4])) [0..<5])"

definition is_empty :: "board \<Rightarrow> int \<Rightarrow> int \<Rightarrow> bool" where
  "is_empty b x y =
     (if x < 0 \<or> x > 3 \<or> y < 0 \<or> y > 4 then False
      else (y, x) \<in> set (empty_spaces b))"

text \<open>\<open>Board.get_goal\<close>: the anchor of the first goal piece, \<open>None\<close> when there is none.\<close>

fun get_goal_of :: "piece list \<Rightarrow> (int \<times> int) option" where
  "get_goal_of [] = None"
| "get_goal_of (p # ps) = (if is_goal p then Some (coord_x p, coord_y p) else get_goal_of ps)"

definition get_goal :: "board \<Rightarrow> (int \<times> int) option" where
  "get_goal b = get_goal_of (pieces b)"

text \<open>
  \<open>Board.__str__\<close>, \<open>Board.__eq__\<close> and \<open>Board.__hash__\<close>. The hash is Python's built-in
  string hash, a parameter \<open>H\<close> here, of \<open>str(self.grid)\<close>, the \<open>repr\<close> of a list of lists
  of one-character strings.
\<close>

definition board_str :: "board \<Rightarrow> string" where
  "board_str b = concat (grid b)"

definition board_eq :: "board \<Rightarrow> board \<Rightarrow> bool" where
  "board_eq a b = (board_str a = board_str b)"

fun join_comma :: "string list \<Rightarrow> string" where
  "join_comma [] = []"
| "join_comma [s] = s"
| "join_comma (s # t # ts) = s @ '', '' @ join_comma (t # ts)"

definition repr_char :: "char \<Rightarrow> string" where
  "repr_char c = [CHR 0x27, c, CHR 0x27]"

definition repr_row :: "char list \<Rightarrow> string" where
  "repr_row r = ''['' @ join_comma (map repr_char r) @ '']''"

definition repr_grid :: "char list list \<Rightarrow> string" where
  "repr_grid g = ''['' @ join_comma (map repr_row g) @ '']''"

definition board_hash :: "(string \<Rightarrow> int) \<Rightarrow> board \<Rightarrow> int" where
  "board_hash H b = H (repr_grid (grid b))"

text \<open>\<open>class State\<close>: a board with its f value, its depth and its parent.\<close>

datatype state = State (board: board) (f: int) (depth: int) (parent: "state option")

text \<open>\<open>State.__lt__\<close>.\<close>

definition state_lt :: "state \<Rightarrow> state \<Rightarrow> bool" where
  "state_lt a b = (f a < f b)"

text \<open>
  \<open>read_from_file\<close>. The file is the list of its lines. One step of the inner loop
  \<open>for x, ch in enumerate(line)\<close> appends at most one piece; only the first goal
  character met adds the goal piece (\<open>g_found\<close>).
\<close>

definition read_char :: "piece list \<times> bool \<Rightarrow> int \<Rightarrow> int \<Rightarrow> char \<Rightarrow> piece list \<times> bool" where
  "read_char st line_index x ch =
     (if ch = CHR ''^'' then (fst st @ [Piece False False x line_index (Some ''v'')], snd st)
      else if ch = CHR ''<'' then (fst st @ [Piece False False x line_index (Some ''h'')], snd st)
      else if ch = char_single then (fst st @ [Piece False True x line_index None], snd st)
      else if ch = char_goal then
        (if snd st = False then (fst st @ [Piece True False x line_index None], True) else st)
      else st)"

fun read_line :: "piece list \<times> bool \<Rightarrow> int \<Rightarrow> int \<Rightarrow> string \<Rightarrow> piece list \<times> bool" where
  "read_line st line_index x [] = st"
| "read_line st line_index x (ch # rest) =
     read_line (read_char st line_index x ch) line_index (x + 1) rest"

fun read_lines :: "piece list \<times> bool \<Rightarrow> int \<Rightarrow> string list \<Rightarrow> piece list" where
  "read_lines st line_index [] = fst st"
| "read_lines st line_index (line # rest) =
     read_lines (read_line st line_index 0 line) (line_index + 1) rest"

definition read_from_file :: "string list \<Rightarrow> error + board" where
  "read_from_file puzzle_file = Board (read_lines ([], False) 0 puzzle_file)"

section \<open>Goal test, heuristic and move generation\<close>

definition goal_test :: "state \<Rightarrow> bool" where
  "goal_test s = (grid (board s) ! 3 ! 1 = char_goal \<and> grid (board s) ! 4 ! 2 = char_goal)"

text \<open>\<open>manhattan\<close>: \<open>goal[0]\<close> raises \<open>TypeError\<close> when \<open>get_goal\<close> returned \<open>None\<close>.\<close>

definition manhattan :: "board \<Rightarrow> error + int" where
  "manhattan b =
     (case get_goal b of
        None \<Rightarrow> Inl TypeError
      | Some (gx, gy) \<Rightarrow> Inr (\<bar>gx - 1\<bar> + \<bar>gy - 3\<bar>))"

text \<open>
  \<open>new_board\<close>. The test \<open>old_piece is not former_piece\<close> compares object identity; the
  elements of a piece list are distinct objects (\<open>read_from_file\<close> and
  \<open>generate_successors\<close> allocate a fresh \<open>Piece\<close> for each element), so the former piece
  is identified by its position \<open>i\<close> in the list.
\<close>

definition new_board :: "piece list \<Rightarrow> piece \<Rightarrow> nat \<Rightarrow> error + board" where
  "new_board old_pieces new_piece i =
     Board (new_piece # (take i old_pieces @ drop (Suc i) old_pieces))"

text \<open>
  The pieces that the body of the loop \<open>for p in pieces\<close> of \<open>generate_successors\<close>
  builds for one piece \<open>p\<close>, in the order in which it appends their successors. The
  \<open>if\<close>/\<open>elif\<close> structure is the source's.
\<close>

definition piece_moves :: "board \<Rightarrow> piece \<Rightarrow> piece list" where
  "piece_moves b p =
     (let x = coord_x p; y = coord_y p in
      if is_goal p then
        (if is_empty b (x + 2) y \<and> is_empty b (x + 2) (y + 1) then
           [Piece True False (x + 1) y None]
         else if is_empty b (x - 1) y \<and> is_empty b (x - 1) (y + 1) then
           [Piece True False (x - 1) y None]
         else if is_empty b x (y + 2) \<and> is_empty b (x + 1) (y + 2) then
           [Piece True False x (y + 1) None]
         else if is_empty b x (y - 1) \<and> is_empty b (x + 1) (y - 1) then
           [Piece True False x (y - 1) None]
         else [])
      else if is_single p then
        (if is_empty b (x + 1) y then [Piece False True (x + 1) y None] else []) @
        (if is_empty b (x - 1) y then [Piece False True (x - 1) y None] else []) @
        (if is_empty b x (y + 1) then [Piece False True x (y + 1) None] else []) @
        (if is_empty b x (y - 1) then [Piece False True x (y - 1) None] else [])
      else if orientation p \<noteq> None then
        (if orientation p = Some ''h'' then
           (if is_empty b (x + 2) y then [Piece False False (x + 1) y (Some ''h'')] else []) @
           (if is_empty b (x - 1) y then [Piece False False (x - 1) y (Some ''h'')] else []) @
           (if is_empty b x (y + 1) \<and> is_empty b (x + 1) (y + 1) then
              [Piece False False x (y + 1) (Some ''h'')]
            else if is_empty b x (y - 1) \<and> is_empty b (x + 1) (y - 1) then
              [Piece False False x (y - 1) (Some ''h'')]
            else [])
         else if orientation p = Some ''v'' then
           (if is_empty b (x + 1) y \<and> is_empty b (x + 1) (y + 1) then
              [Piece False False (x + 1) y (Some ''v'')]
            else if is_empty b (x - 1) y \<and> is_empty b (x - 1) (y + 1) then
              [Piece False False (x - 1) y (Some ''v'')]
            else []) @
           (if is_empty b x (y + 2) then [Piece False False x (y + 1) (Some ''v'')] else []) @
           (if is_empty b x (y - 1) then [Piece False False x (y - 1) (Some ''v'')] else [])
         else [])
      else [])"

text \<open>
  One \<open>successors.append(State(new_b, manhattan(new_b) + state.depth + 1,
  state.depth + 1, state))\<close> for the piece at position \<open>i\<close> moved to \<open>new_p\<close>.
\<close>

definition mk_successor :: "state \<Rightarrow> nat \<Rightarrow> piece \<Rightarrow> error + state" where
  "mk_successor s i new_p =
     ebind (new_board (pieces (board s)) new_p i) (\<lambda>new_b.
     ebind (manhattan new_b) (\<lambda>h.
     Inr (State new_b (h + depth s + 1) (depth s + 1) (Some s))))"

text \<open>Running a list of fallible steps in order; the first exception ends the run.\<close>

fun collect :: "('a \<Rightarrow> error + 'b) \<Rightarrow> 'a list \<Rightarrow> error + 'b list" where
  "collect k [] = Inr []"
| "collect k (x # xs) = ebind (k x) (\<lambda>y. ebind (collect k xs) (\<lambda>ys. Inr (y # ys)))"

definition all_moves :: "board \<Rightarrow> (nat \<times> piece) list" where
  "all_moves b =
     concat (map (\<lambda>i. map (Pair i) (piece_moves b (pieces b ! i))) [0..<length (pieces b)])"

definition generate_successors :: "state \<Rightarrow> error + state list" where
  "generate_successors s =
     collect (\<lambda>(i, new_p). mk_successor s i new_p) (all_moves (board s))"

section \<open>Path reconstruction and the two searches\<close>

text \<open>
  \<open>get_solution\<close>. Its first loop walks the parent links and collects the boards, the
  terminal board first.
\<close>

fun path_to_root :: "state \<Rightarrow> board list" where
  "path_to_root (State b v d par) =
     b # (case par of None \<Rightarrow> [] | Some p \<Rightarrow> path_to_root p)"

text \<open>What the second loop writes for one board: each grid line, then an empty line.\<close>

definition grid_text :: "char list list \<Rightarrow> string" where
  "grid_text g = concat (map (\<lambda>line. line @ [CHR 10]) g) @ [CHR 10]"

text \<open>
  The second loop: \<open>path.pop()\<close> takes the last board of the path, so the root is
  written first. The file opened with mode \<open>w\<close> starts empty and every later handle
  appends; \<open>out\<close> is the text of the file and \<open>state_count\<close> the number that is printed.
\<close>

function write_path :: "board list \<Rightarrow> string \<Rightarrow> int \<Rightarrow> string \<times> int" where
  "write_path path out state_count =
     (if path = [] then (out, state_count)
      else write_path (butlast path) (out @ grid_text (grid (last path))) (state_count + 1))"
  by pat_completeness auto
termination
  by (relation "measure (\<lambda>(path, out, n). length path)") auto

text \<open>\<open>get_solution(state, outputfile)\<close>: the text of the output file and the printed count.\<close>

definition get_solution :: "state option \<Rightarrow> string \<times> int" where
  "get_solution st =
     write_path (case st of None \<Rightarrow> [] | Some s \<Rightarrow> path_to_root s) [] 0"

text \<open>
  \<open>dfs\<close>. The frontier is a Python list used as a stack (\<open>pop()\<close> takes the last
  element), \<open>explored\<close> a list of grids. \<open>dfs_push\<close> is the loop over the successors.
  The \<open>while\<close> loop may not end, so it is a partial function: \<open>None\<close> is a run that
  never returns, \<open>Some (Inl e)\<close> an exception, \<open>Some (Inr r)\<close> the returned value.
\<close>

fun dfs_push :: "state list \<Rightarrow> char list list list \<Rightarrow> state list \<Rightarrow>
    state list \<times> char list list list" where
  "dfs_push frontier explored [] = (frontier, explored)"
| "dfs_push frontier explored (successor # rest) =
     (if grid (board successor) \<notin> set explored then
        dfs_push (frontier @ [successor]) (explored @ [grid (board successor)]) rest
      else dfs_push frontier explored rest)"

partial_function (option) dfs_loop ::
    "state list \<Rightarrow> char list list list \<Rightarrow> (error + state option) option" where
  "dfs_loop frontier explored =
     (if frontier = [] then Some (Inr None)
      else if goal_test (last frontier) then Some (Inr (Some (last frontier)))
      else (case generate_successors (last frontier) of
              Inl e \<Rightarrow> Some (Inl e)
            | Inr succs \<Rightarrow>
                dfs_loop (fst (dfs_push (butlast frontier) explored succs))
                  (snd (dfs_push (butlast frontier) explored succs))))"

declare dfs_loop.simps [code]

definition dfs :: "state \<Rightarrow> (error + state option) option" where
  "dfs initial = dfs_loop [initial] []"

text \<open>
  \<open>astar\<close>. \<open>heapq\<close> is Python's standard library, not code of the repository: its
  \<open>heappush\<close> and \<open>heappop\<close> are parameters here (\<open>heappop h\<close> returns the popped
  element and the heap that is left; \<open>heapify\<close> of a one-element list changes nothing),
  and the program is \<open>astar heapq_heappush heapq_heappop\<close> with the library's operations
  of the next section. The dictionary \<open>explored\<close> is keyed by boards through
  \<open>Board.__eq__\<close>, which compares \<open>str(board)\<close>, so the map is keyed by \<open>board_str\<close>;
  boards that are equal have the same grid and so the same \<open>__hash__\<close>
  (\<open>board_eq_iff_grid\<close>).
\<close>

fun astar_push :: "(state list \<Rightarrow> state \<Rightarrow> state list) \<Rightarrow> state list \<Rightarrow>
    (string \<rightharpoonup> state) \<Rightarrow> state list \<Rightarrow> state list \<times> (string \<rightharpoonup> state)" where
  "astar_push heappush frontier explored [] = (frontier, explored)"
| "astar_push heappush frontier explored (successor # rest) =
     (if (case explored (board_str (board successor)) of
            None \<Rightarrow> True
          | Some old \<Rightarrow> state_lt successor old) then
        astar_push heappush (heappush frontier successor)
          (explored(board_str (board successor) \<mapsto> successor)) rest
      else astar_push heappush frontier explored rest)"

partial_function (option) astar_loop ::
    "(state list \<Rightarrow> state \<Rightarrow> state list) \<Rightarrow> (state list \<Rightarrow> state \<times> state list) \<Rightarrow>
     state list \<Rightarrow> (string \<rightharpoonup> state) \<Rightarrow> (error + state option) option" where
  "astar_loop heappush heappop frontier explored =
     (if frontier = [] then Some (Inr None)
      else if goal_test (fst (heappop frontier)) then Some (Inr (Some (fst (heappop frontier))))
      else (case generate_successors (fst (heappop frontier)) of
              Inl e \<Rightarrow> Some (Inl e)
            | Inr succs \<Rightarrow>
                astar_loop heappush heappop
                  (fst (astar_push heappush (snd (heappop frontier)) explored succs))
                  (snd (astar_push heappush (snd (heappop frontier)) explored succs))))"

declare astar_loop.simps [code]

definition astar ::
    "(state list \<Rightarrow> state \<Rightarrow> state list) \<Rightarrow> (state list \<Rightarrow> state \<times> state list) \<Rightarrow>
     state \<Rightarrow> (error + state option) option" where
  "astar heappush heappop initial =
     astar_loop heappush heappop [initial] [board_str (board initial) \<mapsto> initial]"

section \<open>The heap of the standard library\<close>

text \<open>
  \<open>heapq\<close> is Python's standard library, not code of the repository, and \<open>astar\<close> above
  takes its two operations as parameters. The definitions of this section follow the
  algorithm of the library (\<open>Lib/heapq.py\<close>: \<open>_siftdown\<close>, \<open>_siftup\<close>, \<open>heappush\<close>,
  \<open>heappop\<close>), comparing states with \<open>State.__lt__\<close> only; they are shown below to keep
  the contract under which the theorems about \<open>astar\<close> are proved.

  \<open>_siftdown(heap, startpos, pos)\<close>: the new item moves towards the root while it is
  smaller than its parent.
\<close>

function siftdown_loop :: "state list \<Rightarrow> state \<Rightarrow> nat \<Rightarrow> nat \<Rightarrow> state list" where
  "siftdown_loop heap newitem startpos pos =
     (if pos > startpos then
        (if state_lt newitem (heap ! ((pos - 1) div 2)) then
           siftdown_loop (heap[pos := heap ! ((pos - 1) div 2)]) newitem startpos ((pos - 1) div 2)
         else heap[pos := newitem])
      else heap[pos := newitem])"
  by pat_completeness auto
termination
  by (relation "measure (\<lambda>(heap, newitem, startpos, pos). pos)") auto

definition siftdown :: "state list \<Rightarrow> nat \<Rightarrow> nat \<Rightarrow> state list" where
  "siftdown heap startpos pos = siftdown_loop heap (heap ! pos) startpos pos"

text \<open>
  \<open>_siftup(heap, pos)\<close>: the smaller child moves up until a leaf is reached, the item is
  put there and \<open>_siftdown\<close> moves it to its place.
\<close>

function siftup_loop :: "state list \<Rightarrow> nat \<Rightarrow> state list \<times> nat" where
  "siftup_loop heap pos =
     (if 2 * pos + 1 < length heap then
        (let childpos =
           (if 2 * pos + 2 < length heap \<and>
               \<not> state_lt (heap ! (2 * pos + 1)) (heap ! (2 * pos + 2))
            then 2 * pos + 2 else 2 * pos + 1)
         in siftup_loop (heap[pos := heap ! childpos]) childpos)
      else (heap, pos))"
  by pat_completeness auto
termination
  by (relation "measure (\<lambda>(heap, pos). length heap - pos)") (auto simp: Let_def)

definition siftup :: "state list \<Rightarrow> nat \<Rightarrow> state list" where
  "siftup heap pos =
     (let newitem = heap ! pos; r = siftup_loop heap pos
      in siftdown ((fst r)[snd r := newitem]) pos (snd r))"

text \<open>
  \<open>heappush\<close> and \<open>heappop\<close>. \<open>heappop\<close> returns the popped item with the heap that is
  left; \<open>astar\<close> calls it on a non-empty frontier only.
\<close>

definition heapq_heappush :: "state list \<Rightarrow> state \<Rightarrow> state list" where
  "heapq_heappush heap item = siftdown (heap @ [item]) 0 (length heap)"

definition heapq_heappop :: "state list \<Rightarrow> state \<times> state list" where
  "heapq_heappop heap =
     (let lastelt = last heap; rest = butlast heap in
      if rest \<noteq> [] then (rest ! 0, siftup (rest[0 := lastelt]) 0) else (lastelt, rest))"

declare siftdown_loop.simps [simp del] siftup_loop.simps [simp del]

text \<open>The heap invariant of the library: no element is smaller than its parent.\<close>

definition heap_inv :: "state list \<Rightarrow> bool" where
  "heap_inv h = (\<forall>i. 0 < i \<and> i < length h \<longrightarrow> f (h ! ((i - 1) div 2)) \<le> f (h ! i))"

section \<open>Specification-level definitions\<close>

text \<open>
  The cells a piece writes in \<open>__construct_grid\<close>, as \<open>(x, y)\<close> with the symbol written,
  in the order of the writes; \<open>cells\<close> is the footprint of the piece. A piece that is
  neither goal nor single and whose orientation is neither \<open>'h'\<close> nor \<open>'v'\<close> writes
  nothing.
\<close>

definition marks :: "piece \<Rightarrow> ((int \<times> int) \<times> char) list" where
  "marks p =
     (let x = coord_x p; y = coord_y p in
      if is_goal p then
        [((x, y), char_goal), ((x + 1, y), char_goal), ((x, y + 1), char_goal),
         ((x + 1, y + 1), char_goal)]
      else if is_single p then [((x, y), char_single)]
      else if orientation p = Some ''h'' then [((x, y), CHR ''<''), ((x + 1, y), CHR ''>'')]
      else if orientation p = Some ''v'' then [((x, y), CHR ''^''), ((x, y + 1), CHR ''v'')]
      else [])"

definition cells :: "piece \<Rightarrow> (int \<times> int) list" where
  "cells p = map fst (marks p)"

text \<open>The cells of the board, \<open>[0,3] \<times> [0,4]\<close>.\<close>

definition in_board :: "int \<times> int \<Rightarrow> bool" where
  "in_board c = (0 \<le> fst c \<and> fst c \<le> 3 \<and> 0 \<le> snd c \<and> snd c \<le> 4)"

text \<open>
  The four piece kinds of the data model, as \<open>read_from_file\<close> and
  \<open>generate_successors\<close> build them: \<open>Piece(True, False, x, y, None)\<close>,
  \<open>Piece(False, True, x, y, None)\<close>, \<open>Piece(False, False, x, y, 'h')\<close> and
  \<open>Piece(False, False, x, y, 'v')\<close>.
\<close>

definition canonical :: "piece \<Rightarrow> bool" where
  "canonical p =
     ((is_goal p \<and> \<not> is_single p \<and> orientation p = None) \<or>
      (\<not> is_goal p \<and> is_single p \<and> orientation p = None) \<or>
      (\<not> is_goal p \<and> \<not> is_single p \<and> (orientation p = Some ''h'' \<or> orientation p = Some ''v'')))"

text \<open>
  The data-model invariants of a board's piece list: pieces of the four kinds, exactly one
  goal piece, footprints that share no cell (the list of all footprint cells has no
  repetition) and lie within the board.
\<close>

definition board_inv :: "piece list \<Rightarrow> bool" where
  "board_inv ps =
     (list_all canonical ps \<and> length (filter is_goal ps) = 1 \<and>
      distinct (concat (map cells ps)) \<and> list_all in_board (concat (map cells ps)))"

text \<open>The grid cell \<open>grid[y][x]\<close> of a cell \<open>(x, y)\<close> of the board, and the shape of a grid.\<close>

definition cell_at :: "char list list \<Rightarrow> int \<times> int \<Rightarrow> char" where
  "cell_at g c = g ! nat (snd c) ! nat (fst c)"

definition shape_ok :: "char list list \<Rightarrow> bool" where
  "shape_ok g = (length g = 5 \<and> list_all (\<lambda>r. length r = 4) g)"

text \<open>
  Writing a list of marks into a grid with \<open>set_cell\<close>, and the same writes on a function
  from cells to symbols.
\<close>

fun write_marks :: "char list list \<Rightarrow> ((int \<times> int) \<times> char) list \<Rightarrow> error + char list list" where
  "write_marks g [] = Inr g"
| "write_marks g (m # ms) = ebind (set_cell g (snd (fst m)) (fst (fst m)) (snd m)) (\<lambda>g'. write_marks g' ms)"

fun upd_marks :: "((int \<times> int) \<times> char) list \<Rightarrow> (int \<times> int \<Rightarrow> char) \<Rightarrow> int \<times> int \<Rightarrow> char" where
  "upd_marks [] old = old"
| "upd_marks (m # ms) old = upd_marks ms (old(fst m := snd m))"

text \<open>
  All marks and all footprint cells of a piece list, and the symbol that the rendered grid
  carries at a cell when the footprints share no cell: the mark of the piece covering the
  cell, or a dot.
\<close>

definition all_marks :: "piece list \<Rightarrow> ((int \<times> int) \<times> char) list" where
  "all_marks ps = concat (map marks ps)"

definition all_cells :: "piece list \<Rightarrow> (int \<times> int) list" where
  "all_cells ps = concat (map cells ps)"

definition render :: "piece list \<Rightarrow> int \<times> int \<Rightarrow> char" where
  "render ps d = (case map_of (all_marks ps) d of Some c \<Rightarrow> c | None \<Rightarrow> CHR ''.'')"

definition footprints_ok :: "piece list \<Rightarrow> bool" where
  "footprints_ok ps = (distinct (all_cells ps) \<and> list_all in_board (all_cells ps))"

text \<open>
  The four axis directions, the piece moved one cell in a direction, and the legality
  rules of the specification (section 4.2): \<open>needed p d\<close> lists the cells that must be
  empty for piece \<open>p\<close> to move in direction \<open>d\<close>.
\<close>

datatype direction = MoveRight | MoveLeft | MoveDown | MoveUp

fun delta :: "direction \<Rightarrow> int \<times> int" where
  "delta MoveRight = (1, 0)"
| "delta MoveLeft = (- 1, 0)"
| "delta MoveDown = (0, 1)"
| "delta MoveUp = (0, - 1)"

definition move_piece :: "piece \<Rightarrow> direction \<Rightarrow> piece" where
  "move_piece p d =
     Piece (is_goal p) (is_single p) (coord_x p + fst (delta d)) (coord_y p + snd (delta d))
       (orientation p)"

definition needed :: "piece \<Rightarrow> direction \<Rightarrow> (int \<times> int) list" where
  "needed p d =
     (let x = coord_x p; y = coord_y p in
      if is_goal p then
        (case d of
           MoveRight \<Rightarrow> [(x + 2, y), (x + 2, y + 1)]
         | MoveLeft \<Rightarrow> [(x - 1, y), (x - 1, y + 1)]
         | MoveDown \<Rightarrow> [(x, y + 2), (x + 1, y + 2)]
         | MoveUp \<Rightarrow> [(x, y - 1), (x + 1, y - 1)])
      else if is_single p then
        (case d of
           MoveRight \<Rightarrow> [(x + 1, y)]
         | MoveLeft \<Rightarrow> [(x - 1, y)]
         | MoveDown \<Rightarrow> [(x, y + 1)]
         | MoveUp \<Rightarrow> [(x, y - 1)])
      else if orientation p = Some ''h'' then
        (case d of
           MoveRight \<Rightarrow> [(x + 2, y)]
         | MoveLeft \<Rightarrow> [(x - 1, y)]
         | MoveDown \<Rightarrow> [(x, y + 1), (x + 1, y + 1)]
         | MoveUp \<Rightarrow> [(x, y - 1), (x + 1, y - 1)])
      else
        (case d of
           MoveRight \<Rightarrow> [(x + 1, y), (x + 1, y + 1)]
         | MoveLeft \<Rightarrow> [(x - 1, y), (x - 1, y + 1)]
         | MoveDown \<Rightarrow> [(x, y + 2)]
         | MoveUp \<Rightarrow> [(x, y - 1)]))"

definition legal :: "board \<Rightarrow> piece \<Rightarrow> direction \<Rightarrow> bool" where
  "legal b p d = list_all (\<lambda>c. is_empty b (fst c) (snd c)) (needed p d)"

text \<open>
  A legal direction that the \<open>elif\<close> chains of \<open>generate_successors\<close> skip because an
  earlier branch of the same chain was taken; \<open>generated\<close> are the directions for which a
  successor is built.
\<close>

definition suppressed :: "board \<Rightarrow> piece \<Rightarrow> direction \<Rightarrow> bool" where
  "suppressed b p d =
     (if is_goal p then
        (case d of
           MoveRight \<Rightarrow> False
         | MoveLeft \<Rightarrow> legal b p MoveRight
         | MoveDown \<Rightarrow> legal b p MoveRight \<or> legal b p MoveLeft
         | MoveUp \<Rightarrow> legal b p MoveRight \<or> legal b p MoveLeft \<or> legal b p MoveDown)
      else if is_single p then False
      else if orientation p = Some ''h'' then d = MoveUp \<and> legal b p MoveDown
      else d = MoveLeft \<and> legal b p MoveRight)"

definition generated :: "board \<Rightarrow> piece \<Rightarrow> direction \<Rightarrow> bool" where
  "generated b p d = (legal b p d \<and> \<not> suppressed b p d)"

definition directions :: "direction list" where
  "directions = [MoveRight, MoveLeft, MoveDown, MoveUp]"

text \<open>The piece list without its element at position \<open>i\<close>.\<close>

definition others :: "piece list \<Rightarrow> nat \<Rightarrow> piece list" where
  "others ps i = take i ps @ drop (Suc i) ps"

text \<open>
  A state on a board satisfying the data-model invariants: the piece list satisfies them
  and the board object is the one \<open>Board\<close> constructs from it.
\<close>

definition wf_state :: "state \<Rightarrow> bool" where
  "wf_state s = (board_inv (pieces (board s)) \<and> Board (pieces (board s)) = Inr (board s))"

text \<open>\<open>t\<close> is the successor of \<open>s\<close> that moves the piece at position \<open>i\<close> in direction \<open>d\<close>.\<close>

definition succ_of :: "state \<Rightarrow> nat \<Rightarrow> direction \<Rightarrow> state \<Rightarrow> bool" where
  "succ_of s i d t =
     (i < length (pieces (board s)) \<and> generated (board s) (pieces (board s) ! i) d \<and>
      pieces (board t) = move_piece (pieces (board s) ! i) d # others (pieces (board s)) i \<and>
      Board (pieces (board t)) = Inr (board t) \<and>
      manhattan (board t) = Inr (f t - (depth s + 1)) \<and>
      depth t = depth s + 1 \<and> parent t = Some s)"

text \<open>
  The contract of \<open>heapq\<close>: there is an invariant \<open>I\<close> of heaps that every one-element
  list satisfies and that \<open>heappush\<close> and \<open>heappop\<close> keep; \<open>heappush\<close> adds the element;
  \<open>heappop\<close> on a non-empty heap removes one element, and no element of the heap is
  smaller than it under \<open>State.__lt__\<close>.
\<close>

definition heap_contract ::
    "(state list \<Rightarrow> bool) \<Rightarrow> (state list \<Rightarrow> state \<Rightarrow> state list) \<Rightarrow>
     (state list \<Rightarrow> state \<times> state list) \<Rightarrow> bool" where
  "heap_contract I heappush heappop =
     ((\<forall>x. I [x]) \<and>
      (\<forall>h x. I h \<longrightarrow> I (heappush h x) \<and> mset (heappush h x) = add_mset x (mset h)) \<and>
      (\<forall>h. I h \<longrightarrow> h \<noteq> [] \<longrightarrow>
         I (snd (heappop h)) \<and> mset h = add_mset (fst (heappop h)) (mset (snd (heappop h))) \<and>
         (\<forall>y \<in> set h. \<not> state_lt y (fst (heappop h)))))"

section \<open>Reachability, invariants and measures of the searches\<close>

text \<open>
  The states created from \<open>init\<close> by repeated expansion with \<open>generate_successors\<close>,
  and the initial state that \<open>__main__\<close> builds: \<open>State(board, manhattan(board), 0)\<close> on a
  board satisfying the data-model invariants.
\<close>

inductive reach :: "state \<Rightarrow> state \<Rightarrow> bool" for init :: state where
  reach_init: "reach init init"
| reach_step: "reach init s \<Longrightarrow> generate_successors s = Inr succs \<Longrightarrow> t \<in> set succs \<Longrightarrow>
     reach init t"

definition is_initial :: "state \<Rightarrow> bool" where
  "is_initial s =
     (wf_state s \<and> manhattan (board s) = Inr (f s) \<and> depth s = 0 \<and> parent s = None)"

text \<open>The grids of five rows of four characters: a finite set.\<close>

definition grids :: "char list list set" where
  "grids = {g. length g = 5 \<and> set g \<subseteq> {r. length r = 4}}"

text \<open>The parent chain of a state, from the root to the state itself.\<close>

fun chain :: "state \<Rightarrow> state list" where
  "chain (State b v d par) =
     (case par of None \<Rightarrow> [] | Some p \<Rightarrow> chain p) @ [State b v d par]"

text \<open>
  The key of a state in the dictionary \<open>explored\<close> of \<open>astar\<close>, the heuristic value of
  its board, and the invariant and measure of the loop of \<open>astar\<close>. An entry of
  \<open>explored\<close> is closed when its state is no goal and every successor of it has an entry
  whose f value is not larger.
\<close>

definition key :: "state \<Rightarrow> string" where
  "key s = board_str (board s)"

definition hval :: "state \<Rightarrow> int" where
  "hval s = (case manhattan (board s) of Inr h \<Rightarrow> h | Inl e \<Rightarrow> 0)"

definition closed :: "(string \<rightharpoonup> state) \<Rightarrow> state \<Rightarrow> bool" where
  "closed E s =
     (\<not> goal_test s \<and>
      (\<forall>succs t. generate_successors s = Inr succs \<and> t \<in> set succs \<longrightarrow>
         (\<exists>e. E (key t) = Some e \<and> f e \<le> f t)))"

definition keys :: "string set" where
  "keys = {k. length k = 20}"

definition cost_sum :: "(string \<rightharpoonup> state) \<Rightarrow> nat" where
  "cost_sum E = (\<Sum>k \<in> dom E. nat (f (the (E k))))"

definition astar_inv ::
    "state \<Rightarrow> (state list \<Rightarrow> bool) \<Rightarrow> state list \<Rightarrow> (string \<rightharpoonup> state) \<Rightarrow> bool" where
  "astar_inv init I F E =
     (I F \<and> (\<forall>s \<in> set F. reach init s) \<and> finite (dom E) \<and> dom E \<subseteq> keys \<and>
      (\<forall>k e. E k = Some e \<longrightarrow> reach init e \<and> key e = k \<and> (e \<in> set F \<or> closed E e)) \<and>
      (\<exists>e. E (key init) = Some e \<and> f e \<le> f init))"

text \<open>
  The invariant of the loop of \<open>dfs\<close>: every grid in \<open>explored\<close>, and the grid of the
  initial board, is the grid of a state on the frontier or of a state that was expanded
  and is no goal.
\<close>

definition expanded :: "state \<Rightarrow> char list list list \<Rightarrow> char list list \<Rightarrow> bool" where
  "expanded init ex g =
     (\<exists>e. reach init e \<and> grid (board e) = g \<and> \<not> goal_test e \<and>
        (\<forall>succs t. generate_successors e = Inr succs \<and> t \<in> set succs \<longrightarrow>
           grid (board t) \<in> set ex))"

definition dfs_inv :: "state \<Rightarrow> state list \<Rightarrow> char list list list \<Rightarrow> bool" where
  "dfs_inv init fr ex =
     ((\<forall>s \<in> set fr. reach init s) \<and> set ex \<subseteq> grids \<and>
      (\<forall>g. g \<in> set ex \<or> g = grid (board init) \<longrightarrow>
         (\<exists>u \<in> set fr. grid (board u) = g) \<or> expanded init ex g))"

section \<open>Example boards\<close>

text \<open>The boards and states at which the theorems below are instantiated.\<close>

definition ex_pieces :: "piece list" where
  "ex_pieces =
     [Piece True False 1 0 None, Piece False False 0 0 (Some ''v''),
      Piece False False 3 0 (Some ''v''), Piece False False 1 2 (Some ''h''),
      Piece False True 0 2 None, Piece False True 3 2 None]"

definition ex_board :: board where
  "ex_board = BoardObj ex_pieces [''^11^'', ''v11v'', ''2<>2'', ''....'', ''....'']"

definition ex_state :: state where
  "ex_state = State ex_board 3 0 None"

definition ex_succs :: "state list" where
  "ex_succs =
     [State (BoardObj
         [Piece False False 1 3 (Some ''h''), Piece True False 1 0 None,
          Piece False False 0 0 (Some ''v''), Piece False False 3 0 (Some ''v''),
          Piece False True 0 2 None, Piece False True 3 2 None]
         [''^11^'', ''v11v'', ''2..2'', ''.<>.'', ''....'']) 4 1 (Some ex_state),
      State (BoardObj
         [Piece False True 0 3 None, Piece True False 1 0 None,
          Piece False False 0 0 (Some ''v''), Piece False False 3 0 (Some ''v''),
          Piece False False 1 2 (Some ''h''), Piece False True 3 2 None]
         [''^11^'', ''v11v'', ''.<>2'', ''2...'', ''....'']) 4 1 (Some ex_state),
      State (BoardObj
         [Piece False True 3 3 None, Piece True False 1 0 None,
          Piece False False 0 0 (Some ''v''), Piece False False 3 0 (Some ''v''),
          Piece False False 1 2 (Some ''h''), Piece False True 0 2 None]
         [''^11^'', ''v11v'', ''2<>.'', ''...2'', ''....'']) 4 1 (Some ex_state)]"

definition bug_board :: board where
  "bug_board =
     BoardObj [Piece True False 1 2 None] [''....'', ''....'', ''.11.'', ''.11.'', ''....'']"

definition bug_state :: state where
  "bug_state = State bug_board 1 0 None"

definition solved_state :: state where
  "solved_state =
     State (BoardObj [Piece True False 1 3 None] [''....'', ''....'', ''....'', ''.11.'', ''.11.''])
       0 0 None"

definition stuck_state :: state where
  "stuck_state =
     State (BoardObj
       [Piece True False 0 0 None, Piece False False 2 0 (Some ''h''),
        Piece False False 2 1 (Some ''h''), Piece False False 0 2 (Some ''h''),
        Piece False False 2 2 (Some ''h''), Piece False False 0 3 (Some ''h''),
        Piece False False 2 3 (Some ''h''), Piece False False 0 4 (Some ''h''),
        Piece False False 2 4 (Some ''h'')]
       [''11<>'', ''11<>'', ''<><>'', ''<><>'', ''<><>'']) 4 0 None"

definition near_state :: state where
  "near_state =
     State (BoardObj [Piece True False 0 3 None, Piece False True 3 0 None]
       [''...2'', ''....'', ''....'', ''11..'', ''11..'']) 1 0 None"

definition near_goal :: state where
  "near_goal =
     State (BoardObj [Piece True False 1 3 None, Piece False True 3 0 None]
       [''...2'', ''....'', ''....'', ''.11.'', ''.11.'']) 1 1 (Some near_state)"

section \<open>Rendering lemmas\<close>

lemma ebind_Inr [simp]: "ebind (Inr v) k = k v"
  by (simp add: ebind_def)

lemma ebind_Inl [simp]: "ebind (Inl e) k = Inl e"
  by (simp add: ebind_def)

lemma ebind_eq_Inr: "ebind m k = Inr r \<longleftrightarrow> (\<exists>v. m = Inr v \<and> k v = Inr r)"
  by (cases m) simp_all

lemma write_marks_append:
  "write_marks g (ms @ ns) = ebind (write_marks g ms) (\<lambda>g'. write_marks g' ns)"
proof (induction ms arbitrary: g)
  case Nil
  show ?case by simp
next
  case (Cons m ms)
  show ?case
    by (cases "set_cell g (snd (fst m)) (fst (fst m)) (snd m)") (simp_all add: Cons.IH)
qed

lemma ebind_return [simp]: "ebind m Inr = m"
  by (cases m) simp_all

lemma place_piece_marks: "place_piece g p = write_marks g (marks p)"
  by (simp add: place_piece_def marks_def Let_def)

lemma place_pieces_marks: "place_pieces g ps = write_marks g (concat (map marks ps))"
proof (induction ps arbitrary: g)
  case Nil
  show ?case by simp
next
  case (Cons p ps)
  show ?case
    by (cases "write_marks g (marks p)") (simp_all add: Cons.IH place_piece_marks write_marks_append)
qed

lemma set_cell_in_board:
  assumes "shape_ok g" "in_board (x, y)"
  shows "\<exists>g'. set_cell g y x c = Inr g' \<and> shape_ok g' \<and>
           (\<forall>d. in_board d \<longrightarrow> cell_at g' d = (if d = (x, y) then c else cell_at g d))"
proof -
  from assms have y: "0 \<le> y" "y < 5" and x: "0 \<le> x" "x < 4" and len: "length g = 5"
    by (auto simp: in_board_def shape_ok_def)
  have row: "length (g ! nat y) = 4"
    using assms y by (auto simp: shape_ok_def list_all_length)
  let ?g' = "g[nat y := (g ! nat y)[nat x := c]]"
  have 1: "set_cell g y x c = Inr ?g'"
    using y x len row by (simp add: set_cell_def py_index_def)
  have rows: "length (g ! n) = 4" if "n < 5" for n
    using assms(1) that by (simp add: shape_ok_def list_all_length)
  have 2: "shape_ok ?g'"
    unfolding shape_ok_def list_all_length
  proof (intro conjI allI impI)
    show "length ?g' = 5" using len by simp
  next
    fix n assume "n < length ?g'"
    then have n: "n < 5" using len by simp
    show "length (?g' ! n) = 4"
      using n len rows [of n] rows [of "nat y"] y
      by (cases "n = nat y") simp_all
  qed
  have 3: "cell_at ?g' d = (if d = (x, y) then c else cell_at g d)" if "in_board d" for d
  proof -
    obtain dx dy where d: "d = (dx, dy)" by (cases d)
    from that d have b: "0 \<le> dx" "dx < 4" "0 \<le> dy" "dy < 5" by (auto simp: in_board_def)
    have "nat dy < 5" "nat dx < 4" "nat y < 5" "nat x < 4" using b x y by simp_all
    moreover have "nat dy = nat y \<longleftrightarrow> dy = y" "nat dx = nat x \<longleftrightarrow> dx = x"
      using b x y by auto
    ultimately show ?thesis
      using len row
      by (cases "dy = y"; cases "dx = x") (simp_all add: d cell_at_def)
  qed
  from 1 2 3 show ?thesis by blast
qed

lemma upd_marks_agree: "h1 d = h2 d \<Longrightarrow> upd_marks ms h1 d = upd_marks ms h2 d"
proof (induction ms arbitrary: h1 h2)
  case Nil
  then show ?case by simp
next
  case (Cons m ms)
  have "(h1(fst m := snd m)) d = (h2(fst m := snd m)) d"
    using Cons.prems by simp
  from Cons.IH [of "h1(fst m := snd m)" "h2(fst m := snd m)", OF this] show ?case
    by (simp only: upd_marks.simps)
qed

lemma write_marks_in_board:
  assumes "shape_ok g" "list_all in_board (map fst ms)"
  shows "\<exists>g'. write_marks g ms = Inr g' \<and> shape_ok g' \<and>
           (\<forall>d. in_board d \<longrightarrow> cell_at g' d = upd_marks ms (cell_at g) d)"
  using assms
proof (induction ms arbitrary: g)
  case Nil
  then show ?case by simp
next
  case (Cons m ms)
  obtain x y c where m: "m = ((x, y), c)" by (cases m) auto
  from Cons.prems have ib: "in_board (x, y)" and rest: "list_all in_board (map fst ms)"
    by (simp_all add: m)
  from set_cell_in_board [OF Cons.prems(1) ib, of c]
  obtain g1 where g1: "set_cell g y x c = Inr g1" "shape_ok g1"
    and c1: "\<forall>d. in_board d \<longrightarrow> cell_at g1 d = (if d = (x, y) then c else cell_at g d)"
    by blast
  from Cons.IH [OF g1(2) rest]
  obtain g2 where g2: "write_marks g1 ms = Inr g2" "shape_ok g2"
    and c2: "\<forall>d. in_board d \<longrightarrow> cell_at g2 d = upd_marks ms (cell_at g1) d"
    by blast
  note agree = upd_marks_agree
  have "cell_at g2 d = upd_marks (m # ms) (cell_at g) d" if "in_board d" for d
  proof -
    have "cell_at g2 d = upd_marks ms (cell_at g1) d" by (rule c2 [rule_format, OF that])
    also have "\<dots> = upd_marks ms ((cell_at g)((x, y) := c)) d"
    proof (rule agree)
      show "cell_at g1 d = ((cell_at g)((x, y) := c)) d"
        using c1 [rule_format, OF that] by (cases "d = (x, y)") simp_all
    qed
    finally show ?thesis by (simp add: m)
  qed
  with g1 g2 show ?case by (simp add: m)
qed

lemma upd_marks_map_of:
  "distinct (map fst ms) \<Longrightarrow>
   upd_marks ms old d = (case map_of ms d of Some c \<Rightarrow> c | None \<Rightarrow> old d)"
proof (induction ms arbitrary: old)
  case Nil
  show ?case by simp
next
  case (Cons m ms)
  obtain k c where m: "m = (k, c)" by (cases m)
  from Cons.prems have dist: "distinct (map fst ms)" and fresh: "k \<notin> fst ` set ms"
    by (simp_all add: m)
  have none: "map_of ms k = None"
    using fresh by (simp add: map_of_eq_None_iff)
  show ?case
  proof (cases "d = k")
    case True
    then show ?thesis using Cons.IH [OF dist, of "old(k := c)"] none by (simp add: m fun_upd_def)
  next
    case False
    then show ?thesis using Cons.IH [OF dist, of "old(k := c)"]
      by (simp add: m fun_upd_def split: option.splits)
  qed
qed

lemma map_fst_all_marks: "map fst (all_marks ps) = all_cells ps"
  by (simp add: all_marks_def all_cells_def map_concat comp_def cells_def [abs_def])

lemma blank_grid_shape: "shape_ok blank_grid"
  by (simp add: shape_ok_def blank_grid_def height_def width_def list_all_length)

lemma blank_grid_cell: "in_board d \<Longrightarrow> cell_at blank_grid d = CHR ''.''"
proof -
  assume "in_board d"
  then have "nat (snd d) < 5" "nat (fst d) < 4" by (auto simp: in_board_def)
  then show ?thesis by (simp add: cell_at_def blank_grid_def height_def width_def)
qed

lemma Board_in_board:
  assumes "list_all in_board (all_cells ps)"
  shows "\<exists>g. Board ps = Inr (BoardObj ps g) \<and> shape_ok g \<and>
           (\<forall>d. in_board d \<longrightarrow> cell_at g d = upd_marks (all_marks ps) (\<lambda>_. CHR ''.'') d)"
proof -
  from assms have "list_all in_board (map fst (all_marks ps))"
    by (simp add: map_fst_all_marks)
  from write_marks_in_board [OF blank_grid_shape this]
  obtain g where g: "write_marks blank_grid (all_marks ps) = Inr g" "shape_ok g"
    and c: "\<forall>d. in_board d \<longrightarrow> cell_at g d = upd_marks (all_marks ps) (cell_at blank_grid) d"
    by blast
  have "cell_at g d = upd_marks (all_marks ps) (\<lambda>_. CHR ''.'') d" if "in_board d" for d
  proof -
    have "cell_at g d = upd_marks (all_marks ps) (cell_at blank_grid) d"
      by (rule c [rule_format, OF that])
    also have "\<dots> = upd_marks (all_marks ps) (\<lambda>_. CHR ''.'') d"
      by (rule upd_marks_agree) (simp add: blank_grid_cell that)
    finally show ?thesis .
  qed
  moreover have "Board ps = Inr (BoardObj ps g)"
    using g(1) by (simp add: Board_def construct_grid_def place_pieces_marks all_marks_def)
  ultimately show ?thesis using g(2) by blast
qed

lemma board_inv_cells:
  "board_inv ps \<Longrightarrow> distinct (all_cells ps) \<and> list_all in_board (all_cells ps)"
  by (simp add: board_inv_def all_cells_def)

lemma board_inv_footprints: "board_inv ps \<Longrightarrow> footprints_ok ps"
  by (simp add: footprints_ok_def board_inv_cells)

lemma Board_render_footprints:
  assumes "footprints_ok ps"
  shows "\<exists>g. Board ps = Inr (BoardObj ps g) \<and> shape_ok g \<and>
           (\<forall>d. in_board d \<longrightarrow> cell_at g d = render ps d)"
proof -
  from assms have d: "distinct (all_cells ps)"
    and ib: "list_all in_board (all_cells ps)" by (simp_all add: footprints_ok_def)
  from Board_in_board [OF ib] obtain g where g: "Board ps = Inr (BoardObj ps g)" "shape_ok g"
    and c: "\<forall>d. in_board d \<longrightarrow> cell_at g d = upd_marks (all_marks ps) (\<lambda>_. CHR ''.'') d"
    by blast
  have "distinct (map fst (all_marks ps))" using d by (simp add: map_fst_all_marks)
  then have "upd_marks (all_marks ps) (\<lambda>_. CHR ''.'') d = render ps d" for d
    by (simp add: upd_marks_map_of render_def)
  with g c show ?thesis by simp
qed

lemma Board_render:
  assumes "board_inv ps"
  shows "\<exists>g. Board ps = Inr (BoardObj ps g) \<and> shape_ok g \<and>
           (\<forall>d. in_board d \<longrightarrow> cell_at g d = render ps d)"
  by (rule Board_render_footprints [OF board_inv_footprints [OF assms]])

lemma marks_not_dot: "(d, c) \<in> set (marks p) \<Longrightarrow> c \<noteq> CHR ''.''"
  by (auto simp: marks_def Let_def char_goal_def char_single_def split: if_splits)

lemma render_dot_iff: "render ps d = CHR ''.'' \<longleftrightarrow> d \<notin> set (all_cells ps)"
proof (cases "map_of (all_marks ps) d")
  case None
  moreover from None have "d \<notin> set (all_cells ps)"
    by (simp add: map_of_eq_None_iff map_fst_all_marks [symmetric])
  ultimately show ?thesis
    by (simp add: render_def)
next
  case (Some c)
  then have m: "(d, c) \<in> set (all_marks ps)" by (rule map_of_SomeD)
  then have "c \<noteq> CHR ''.''" by (auto simp: all_marks_def dest: marks_not_dot)
  moreover from m have "d \<in> set (all_cells ps)"
    by (force simp: map_fst_all_marks [symmetric])
  ultimately show ?thesis by (simp add: render_def Some)
qed

lemma mem_empty_spaces:
  "(y, x) \<in> set (empty_spaces b) \<longleftrightarrow>
     (\<exists>i<5. \<exists>j<4. grid b ! i ! j = CHR ''.'' \<and> y = int i \<and> x = int j)"
  by (auto simp: empty_spaces_def)

lemma is_empty_iff:
  "is_empty b x y \<longleftrightarrow> in_board (x, y) \<and> cell_at (grid b) (x, y) = CHR ''.''"
proof (cases "in_board (x, y)")
  case False
  then show ?thesis by (auto simp: is_empty_def in_board_def)
next
  case True
  then have b: "0 \<le> x" "x \<le> 3" "0 \<le> y" "y \<le> 4" by (simp_all add: in_board_def)
  have "(y, x) \<in> set (empty_spaces b) \<longleftrightarrow> grid b ! nat y ! nat x = CHR ''.''"
  proof
    assume "(y, x) \<in> set (empty_spaces b)"
    then obtain i j where "grid b ! i ! j = CHR ''.''" "y = int i" "x = int j"
      unfolding mem_empty_spaces by blast
    then show "grid b ! nat y ! nat x = CHR ''.''" by simp
  next
    assume "grid b ! nat y ! nat x = CHR ''.''"
    moreover have "nat y < 5" "nat x < 4" "y = int (nat y)" "x = int (nat x)" using b by simp_all
    ultimately show "(y, x) \<in> set (empty_spaces b)"
      unfolding mem_empty_spaces by blast
  qed
  with True b show ?thesis by (simp add: is_empty_def cell_at_def)
qed

lemma is_empty_board_inv:
  assumes "board_inv ps" "Board ps = Inr b"
  shows "is_empty b x y \<longleftrightarrow> in_board (x, y) \<and> (x, y) \<notin> set (all_cells ps)"
proof -
  from Board_render [OF assms(1)] assms(2)
  have "\<forall>d. in_board d \<longrightarrow> cell_at (grid b) d = render ps d" by auto
  then show ?thesis by (auto simp: is_empty_iff render_dot_iff)
qed

lemma piece_moves_goal:
  assumes "is_goal p" "\<not> is_single p" "orientation p = None"
  shows "piece_moves b p = map (move_piece p) (filter (generated b p) directions)"
  using assms
  by (simp add: piece_moves_def Let_def directions_def generated_def suppressed_def legal_def
      needed_def move_piece_def)

lemma piece_moves_single:
  assumes "\<not> is_goal p" "is_single p" "orientation p = None"
  shows "piece_moves b p = map (move_piece p) (filter (generated b p) directions)"
  using assms
  by (simp add: piece_moves_def Let_def directions_def generated_def suppressed_def legal_def
      needed_def move_piece_def)

lemma piece_moves_h:
  assumes "\<not> is_goal p" "\<not> is_single p" "orientation p = Some ''h''"
  shows "piece_moves b p = map (move_piece p) (filter (generated b p) directions)"
  using assms
  by (simp add: piece_moves_def Let_def directions_def generated_def suppressed_def legal_def
      needed_def move_piece_def)

lemma piece_moves_v:
  assumes "\<not> is_goal p" "\<not> is_single p" "orientation p = Some ''v''"
  shows "piece_moves b p = map (move_piece p) (filter (generated b p) directions)"
  using assms
  by (simp add: piece_moves_def Let_def directions_def generated_def suppressed_def legal_def
      needed_def move_piece_def)

lemma piece_moves_generated:
  "canonical p \<Longrightarrow> piece_moves b p = map (move_piece p) (filter (generated b p) directions)"
  unfolding canonical_def
  using piece_moves_goal piece_moves_single piece_moves_h piece_moves_v by blast

lemma cells_eq:
  "cells p =
     (if is_goal p then
        [(coord_x p, coord_y p), (coord_x p + 1, coord_y p), (coord_x p, coord_y p + 1),
         (coord_x p + 1, coord_y p + 1)]
      else if is_single p then [(coord_x p, coord_y p)]
      else if orientation p = Some ''h'' then [(coord_x p, coord_y p), (coord_x p + 1, coord_y p)]
      else if orientation p = Some ''v'' then [(coord_x p, coord_y p), (coord_x p, coord_y p + 1)]
      else [])"
  by (simp add: cells_def marks_def Let_def)

lemma cells_move_piece:
  "canonical p \<Longrightarrow> set (cells (move_piece p d)) \<subseteq> set (cells p) \<union> set (needed p d)"
  by (cases d) (auto simp: canonical_def cells_eq move_piece_def needed_def Let_def)

lemma distinct_cells: "distinct (cells p)"
  by (simp add: cells_eq)

lemma canonical_move_piece: "canonical p \<Longrightarrow> canonical (move_piece p d)"
  by (simp add: canonical_def move_piece_def)

lemma is_goal_move_piece [simp]: "is_goal (move_piece p d) = is_goal p"
  by (simp add: move_piece_def)

lemma inj_move_piece: "move_piece p d = move_piece p e \<Longrightarrow> d = e"
  by (cases d; cases e) (simp_all add: move_piece_def)

lemma all_cells_Cons: "all_cells (p # ps) = cells p @ all_cells ps"
  by (simp add: all_cells_def)

lemma all_cells_append: "all_cells (xs @ ys) = all_cells xs @ all_cells ys"
  by (simp add: all_cells_def)

lemma split_at: "i < length ps \<Longrightarrow> ps = take i ps @ ps ! i # drop (Suc i) ps"
  by (simp add: id_take_nth_drop)

lemma board_inv_split:
  "board_inv (xs @ p # ys) \<longleftrightarrow>
     list_all canonical xs \<and> canonical p \<and> list_all canonical ys \<and>
     length (filter is_goal xs) + (if is_goal p then 1 else 0) + length (filter is_goal ys) = 1 \<and>
     distinct (all_cells xs @ cells p @ all_cells ys) \<and>
     list_all in_board (all_cells xs) \<and> list_all in_board (cells p) \<and>
     list_all in_board (all_cells ys)"
  by (auto simp: board_inv_def all_cells_def)

lemma board_inv_moved:
  "board_inv (q # xs @ ys) \<longleftrightarrow>
     list_all canonical xs \<and> canonical q \<and> list_all canonical ys \<and>
     length (filter is_goal xs) + (if is_goal q then 1 else 0) + length (filter is_goal ys) = 1 \<and>
     distinct (cells q @ all_cells xs @ all_cells ys) \<and>
     list_all in_board (all_cells xs) \<and> list_all in_board (cells q) \<and>
     list_all in_board (all_cells ys)"
  by (auto simp: board_inv_def all_cells_def)

lemma legal_cells:
  assumes "board_inv ps" "Board ps = Inr b" "legal b p d" "c \<in> set (needed p d)"
  shows "in_board c \<and> c \<notin> set (all_cells ps)"
proof -
  from assms(3,4) have "is_empty b (fst c) (snd c)"
    by (simp add: legal_def list_all_iff)
  then show ?thesis
    using is_empty_board_inv [OF assms(1,2), of "fst c" "snd c"] by simp
qed

lemma board_inv_move:
  assumes inv: "board_inv ps" and b: "Board ps = Inr b" and i: "i < length ps"
    and leg: "legal b (ps ! i) d"
  shows "board_inv (move_piece (ps ! i) d # others ps i)"
proof -
  define xs ys p q where "xs = take i ps" and "ys = drop (Suc i) ps" and "p = ps ! i"
    and "q = move_piece p d"
  have ps: "ps = xs @ p # ys"
    unfolding xs_def ys_def p_def by (rule split_at [OF i])
  from inv have s: "list_all canonical xs" "canonical p" "list_all canonical ys"
    "length (filter is_goal xs) + (if is_goal p then 1 else 0) + length (filter is_goal ys) = 1"
    "distinct (all_cells xs @ cells p @ all_cells ys)"
    "list_all in_board (all_cells xs)" "list_all in_board (cells p)"
    "list_all in_board (all_cells ys)"
    unfolding ps board_inv_split by simp_all
  have need: "in_board c \<and> c \<notin> set (all_cells ps)" if "c \<in> set (needed p d)" for c
    using legal_cells [OF inv b leg] that by (simp add: p_def)
  have sub: "set (cells q) \<subseteq> set (cells p) \<union> set (needed p d)"
    unfolding q_def by (rule cells_move_piece [OF s(2)])
  have allc: "set (all_cells ps) = set (all_cells xs) \<union> set (cells p) \<union> set (all_cells ys)"
    by (subst ps) (auto simp: all_cells_append all_cells_Cons)
  have disj: "c \<notin> set (all_cells xs) \<and> c \<notin> set (all_cells ys)" if "c \<in> set (cells q)" for c
  proof (cases "c \<in> set (cells p)")
    case True
    with s(5) show ?thesis by auto
  next
    case False
    with sub that have "c \<in> set (needed p d)" by blast
    from need [OF this] allc show ?thesis by blast
  qed
  have inb: "list_all in_board (cells q)"
    unfolding list_all_iff
  proof
    fix c assume c: "c \<in> set (cells q)"
    show "in_board c"
    proof (cases "c \<in> set (cells p)")
      case True
      with s(7) show ?thesis by (simp add: list_all_iff)
    next
      case False
      with sub c have "c \<in> set (needed p d)" by blast
      from need [OF this] show ?thesis by simp
    qed
  qed
  have dist: "distinct (cells q @ all_cells xs @ all_cells ys)"
    using s(5) disj distinct_cells [of q] by auto
  have "board_inv (q # xs @ ys)"
    unfolding board_inv_moved
    using s(1,3,4,6,8) canonical_move_piece [OF s(2), of d] inb dist
    by (simp add: q_def)
  then show ?thesis
    by (simp add: q_def p_def xs_def ys_def others_def)
qed

lemma get_goal_of_Some:
  "filter is_goal ps \<noteq> [] \<Longrightarrow> \<exists>a. get_goal_of ps = Some a"
  by (induction ps) auto

lemma manhattan_board_inv:
  assumes "board_inv ps" "Board ps = Inr b"
  shows "\<exists>h. manhattan b = Inr h \<and> 0 \<le> h"
proof -
  from assms(2) have p: "pieces b = ps"
    by (auto simp: Board_def ebind_eq_Inr)
  from assms(1) have "filter is_goal ps \<noteq> []"
    by (auto simp: board_inv_def)
  from get_goal_of_Some [OF this] obtain a where "get_goal_of ps = Some a" ..
  then show ?thesis
    by (cases a) (simp add: manhattan_def get_goal_def p)
qed

lemma collect_Inr_iff:
  "collect k xs = Inr ys \<longleftrightarrow> list_all2 (\<lambda>x y. k x = Inr y) xs ys"
proof (induction xs arbitrary: ys)
  case Nil
  show ?case by auto
next
  case (Cons x xs)
  show ?case
    by (cases ys) (auto simp: ebind_eq_Inr Cons.IH)
qed

lemma collect_total:
  "(\<And>x. x \<in> set xs \<Longrightarrow> \<exists>y. k x = Inr y) \<Longrightarrow> \<exists>ys. collect k xs = Inr ys"
proof (induction xs)
  case Nil
  show ?case by simp
next
  case (Cons x xs)
  from Cons.prems [of x] obtain y where y: "k x = Inr y" by auto
  from Cons.IH Cons.prems obtain ys where "collect k xs = Inr ys" by auto
  with y show ?case by simp
qed

lemma mem_all_moves:
  "(i, q) \<in> set (all_moves b) \<longleftrightarrow> i < length (pieces b) \<and> q \<in> set (piece_moves b (pieces b ! i))"
  by (auto simp: all_moves_def)

lemma mk_successor_wf:
  assumes wf: "wf_state s" and i: "i < length (pieces (board s))"
    and g: "generated (board s) (pieces (board s) ! i) d"
  shows "\<exists>t. mk_successor s i (move_piece (pieces (board s) ! i) d) = Inr t \<and>
           succ_of s i d t \<and> wf_state t"
proof -
  let ?ps = "pieces (board s)"
  let ?ps' = "move_piece (?ps ! i) d # others ?ps i"
  from wf have inv: "board_inv ?ps" and b: "Board ?ps = Inr (board s)"
    by (simp_all add: wf_state_def)
  from g have leg: "legal (board s) (?ps ! i) d" by (simp add: generated_def)
  have inv': "board_inv ?ps'" by (rule board_inv_move [OF inv b i leg])
  from Board_render [OF inv'] obtain g' where b': "Board ?ps' = Inr (BoardObj ?ps' g')" by blast
  from manhattan_board_inv [OF inv' b'] obtain h where h: "manhattan (BoardObj ?ps' g') = Inr h"
    by blast
  let ?t = "State (BoardObj ?ps' g') (h + depth s + 1) (depth s + 1) (Some s)"
  have "mk_successor s i (move_piece (?ps ! i) d) = Inr ?t"
    using b' h by (simp add: mk_successor_def new_board_def others_def)
  moreover have "succ_of s i d ?t"
    using i g b' h by (simp add: succ_of_def)
  moreover have "wf_state ?t"
    using inv' b' by (simp add: wf_state_def)
  ultimately show ?thesis by blast
qed

lemma wf_state_canonical:
  "wf_state s \<Longrightarrow> i < length (pieces (board s)) \<Longrightarrow> canonical (pieces (board s) ! i)"
  by (simp add: wf_state_def board_inv_def list_all_length)

lemma all_moves_generated:
  assumes "wf_state s"
  shows "(i, q) \<in> set (all_moves (board s)) \<longleftrightarrow>
           i < length (pieces (board s)) \<and>
           (\<exists>d. generated (board s) (pieces (board s) ! i) d \<and> q = move_piece (pieces (board s) ! i) d)"
proof (cases "i < length (pieces (board s))")
  case False
  then show ?thesis by (simp add: mem_all_moves)
next
  case True
  have "d \<in> set directions" for d by (cases d) (simp_all add: directions_def)
  then show ?thesis
    using True piece_moves_generated [OF wf_state_canonical [OF assms True], of "board s"]
    by (auto simp: mem_all_moves)
qed

lemma generate_successors_wf:
  assumes wf: "wf_state s"
  shows "\<exists>succs. generate_successors s = Inr succs \<and>
           (\<forall>t \<in> set succs. wf_state t \<and> (\<exists>i d. succ_of s i d t)) \<and>
           (\<forall>i d. i < length (pieces (board s)) \<longrightarrow> generated (board s) (pieces (board s) ! i) d \<longrightarrow>
              (\<exists>t \<in> set succs. succ_of s i d t))"
proof -
  let ?k = "\<lambda>(i, new_p). mk_successor s i new_p"
  have tot: "\<exists>y. ?k x = Inr y" if "x \<in> set (all_moves (board s))" for x
  proof -
    obtain i q where x: "x = (i, q)" by (cases x)
    from that obtain d where "i < length (pieces (board s))"
      "generated (board s) (pieces (board s) ! i) d" "q = move_piece (pieces (board s) ! i) d"
      unfolding x all_moves_generated [OF wf] by blast
    with mk_successor_wf [OF wf this(1,2)] show ?thesis by (auto simp: x)
  qed
  from collect_total [of "all_moves (board s)" ?k, OF tot]
  obtain succs where succs: "generate_successors s = Inr succs"
    by (auto simp: generate_successors_def)
  then have l2: "list_all2 (\<lambda>x y. ?k x = Inr y) (all_moves (board s)) succs"
    by (simp add: generate_successors_def collect_Inr_iff)
  have 1: "wf_state t \<and> (\<exists>i d. succ_of s i d t)" if "t \<in> set succs" for t
  proof -
    from that obtain n where n: "n < length succs" "t = succs ! n"
      by (auto simp: in_set_conv_nth)
    define x where "x = all_moves (board s) ! n"
    from l2 n have x: "x \<in> set (all_moves (board s))" "?k x = Inr t"
      unfolding x_def by (simp_all add: list_all2_conv_all_nth)
    obtain i q where xq: "x = (i, q)" by (cases x)
    from x(1) obtain d where d: "i < length (pieces (board s))"
      "generated (board s) (pieces (board s) ! i) d" "q = move_piece (pieces (board s) ! i) d"
      unfolding xq all_moves_generated [OF wf] by blast
    from mk_successor_wf [OF wf d(1,2)] x(2) show ?thesis
      by (auto simp: xq d(3))
  qed
  have 2: "\<exists>t \<in> set succs. succ_of s i d t"
    if "i < length (pieces (board s))" "generated (board s) (pieces (board s) ! i) d" for i d
  proof -
    let ?q = "move_piece (pieces (board s) ! i) d"
    from that have "(i, ?q) \<in> set (all_moves (board s))"
      unfolding all_moves_generated [OF wf] by blast
    then obtain n where n: "n < length (all_moves (board s))" "all_moves (board s) ! n = (i, ?q)"
      by (auto simp: in_set_conv_nth)
    with l2 have "mk_successor s i ?q = Inr (succs ! n)" "n < length succs"
      by (auto simp: list_all2_conv_all_nth)
    with mk_successor_wf [OF wf that] show ?thesis by auto
  qed
  from succs 1 2 show ?thesis by blast
qed

lemma Board_pieces: "Board ps = Inr b \<Longrightarrow> pieces b = ps"
  by (auto simp: Board_def ebind_eq_Inr)

lemma Board_render_grid:
  assumes "board_inv ps" "Board ps = Inr b"
  shows "pieces b = ps" and "shape_ok (grid b)"
    and "in_board d \<Longrightarrow> cell_at (grid b) d = render ps d"
proof -
  from Board_render [OF assms(1)] obtain g where g: "Board ps = Inr (BoardObj ps g)" "shape_ok g"
    and c: "\<forall>d. in_board d \<longrightarrow> cell_at g d = render ps d" by blast
  from g(1) assms(2) have b: "b = BoardObj ps g" by simp
  show "pieces b = ps" by (simp add: b)
  show "shape_ok (grid b)" using g(2) by (simp add: b)
  show "cell_at (grid b) d = render ps d" if "in_board d"
    using c [rule_format, OF that] by (simp add: b)
qed

lemma mk_successor_Inr:
  assumes "mk_successor s i q = Inr t"
  shows "\<exists>h. Board (q # others (pieces (board s)) i) = Inr (board t) \<and>
           manhattan (board t) = Inr h \<and> f t = h + depth s + 1 \<and>
           depth t = depth s + 1 \<and> parent t = Some s"
  using assms by (auto simp: mk_successor_def new_board_def others_def ebind_eq_Inr)

lemma generate_successors_mem:
  assumes "generate_successors s = Inr succs" "t \<in> set succs"
  shows "\<exists>i q. (i, q) \<in> set (all_moves (board s)) \<and> mk_successor s i q = Inr t"
proof -
  from assms(1) have l2: "list_all2 (\<lambda>x y. (case x of (i, new_p) \<Rightarrow> mk_successor s i new_p) = Inr y)
      (all_moves (board s)) succs"
    by (simp add: generate_successors_def collect_Inr_iff)
  from assms(2) obtain n where n: "n < length succs" "t = succs ! n"
    by (auto simp: in_set_conv_nth)
  define x where "x = all_moves (board s) ! n"
  from l2 n have x: "x \<in> set (all_moves (board s))"
    "(case x of (i, new_p) \<Rightarrow> mk_successor s i new_p) = Inr t"
    unfolding x_def by (simp_all add: list_all2_conv_all_nth)
  obtain i q where xq: "x = (i, q)" by (cases x)
  from x show ?thesis unfolding xq by auto
qed

lemma render_eq_iff:
  assumes "distinct (all_cells ps)" "c \<noteq> CHR ''.''"
  shows "render ps d = c \<longleftrightarrow> (d, c) \<in> set (all_marks ps)"
proof -
  have dm: "distinct (map fst (all_marks ps))"
    using assms(1) by (simp add: map_fst_all_marks)
  show ?thesis
  proof (cases "map_of (all_marks ps) d")
    case None
    then have "d \<notin> fst ` set (all_marks ps)" by (simp add: map_of_eq_None_iff)
    then have "(d, c) \<notin> set (all_marks ps)" by force
    with None assms(2) show ?thesis by (auto simp: render_def)
  next
    case (Some e)
    then have "(d, c) \<in> set (all_marks ps) \<longleftrightarrow> e = c"
      using map_of_eq_Some_iff [OF dm, of d c] by auto
    with Some show ?thesis by (simp add: render_def)
  qed
qed

lemma goal_mark_iff:
  "(d, char_goal) \<in> set (marks p) \<longleftrightarrow> is_goal p \<and> d \<in> set (cells p)"
  by (auto simp: cells_eq marks_def Let_def char_goal_def char_single_def)

lemma goal_mark_all_iff:
  "(d, char_goal) \<in> set (all_marks ps) \<longleftrightarrow> (\<exists>p \<in> set ps. is_goal p \<and> d \<in> set (cells p))"
  by (auto simp: all_marks_def goal_mark_iff)

lemma get_goal_of_filter:
  "get_goal_of ps =
     (case filter is_goal ps of [] \<Rightarrow> None | a # _ \<Rightarrow> Some (coord_x a, coord_y a))"
  by (induction ps) simp_all

lemma one_goal:
  assumes "length (filter is_goal ps) = 1"
  obtains p where "filter is_goal ps = [p]" "is_goal p" "p \<in> set ps"
    "\<And>q. q \<in> set ps \<Longrightarrow> is_goal q \<Longrightarrow> q = p"
proof -
  from assms obtain p where p: "filter is_goal ps = [p]"
    by (cases "filter is_goal ps") auto
  then have s: "set (filter is_goal ps) = {p}" by simp
  then have "is_goal p" "p \<in> set ps" by auto
  moreover have "q = p" if "q \<in> set ps" "is_goal q" for q
    using s that by auto
  ultimately show ?thesis using p that by blast
qed

lemma goal_test_cells:
  "goal_test s \<longleftrightarrow>
     cell_at (grid (board s)) (1, 3) = char_goal \<and> cell_at (grid (board s)) (2, 4) = char_goal"
  by (simp add: goal_test_def cell_at_def)

lemma goal_cell_iff:
  assumes inv: "board_inv ps" and b: "Board ps = Inr b" and d: "in_board d"
    and p: "filter is_goal ps = [p]"
  shows "cell_at (grid b) d = char_goal \<longleftrightarrow> d \<in> set (cells p)"
proof -
  from p have s: "set (filter is_goal ps) = {p}" by simp
  have "cell_at (grid b) d = char_goal \<longleftrightarrow> render ps d = char_goal"
    by (simp add: Board_render_grid(3) [OF inv b d])
  also have "\<dots> \<longleftrightarrow> (d, char_goal) \<in> set (all_marks ps)"
    using inv by (intro render_eq_iff) (simp_all add: board_inv_def all_cells_def char_goal_def)
  also have "\<dots> \<longleftrightarrow> (\<exists>q \<in> set (filter is_goal ps). d \<in> set (cells q))"
    by (auto simp: goal_mark_all_iff)
  also have "\<dots> \<longleftrightarrow> d \<in> set (cells p)"
    unfolding s by simp
  finally show ?thesis .
qed

lemma mset_all_cells: "mset (all_cells ps) = (\<Sum>p\<in>#mset ps. mset (cells p))"
  by (induction ps) (simp_all add: all_cells_def)

lemma footprints_ok_perm:
  assumes "mset qs = mset ps" "footprints_ok ps"
  shows "footprints_ok qs"
proof -
  have c: "mset (all_cells qs) = mset (all_cells ps)"
    by (simp add: mset_all_cells assms(1))
  then have sc: "set (all_cells qs) = set (all_cells ps)" by (rule mset_eq_setD)
  have "distinct (all_cells qs) \<longleftrightarrow> distinct (all_cells ps)"
    by (rule mset_eq_imp_distinct_iff [OF c])
  with assms(2) sc show ?thesis
    by (simp add: footprints_ok_def list_all_iff)
qed

lemma render_perm:
  assumes "mset qs = mset ps" "footprints_ok ps"
  shows "render qs = render ps"
proof -
  from assms(1) have s: "set qs = set ps" by (rule mset_eq_setD)
  have dq: "distinct (map fst (all_marks qs))"
    using footprints_ok_perm [OF assms] by (simp add: map_fst_all_marks footprints_ok_def)
  have dp: "distinct (map fst (all_marks ps))"
    using assms(2) by (simp add: map_fst_all_marks footprints_ok_def)
  have "set (all_marks qs) = set (all_marks ps)"
    by (simp add: all_marks_def s)
  then have "map_of (all_marks qs) = map_of (all_marks ps)"
    by (simp add: map_of_inject_set [OF dq dp])
  then show ?thesis by (simp add: render_def fun_eq_iff)
qed

lemma grid_ext:
  assumes "shape_ok g" "shape_ok h" "\<And>d. in_board d \<Longrightarrow> cell_at g d = cell_at h d"
  shows "g = h"
proof (rule nth_equalityI)
  show "length g = length h" using assms(1,2) by (simp add: shape_ok_def)
next
  fix i assume "i < length g"
  then have i: "i < 5" using assms(1) by (simp add: shape_ok_def)
  have lg: "length (g ! i) = 4" and lh: "length (h ! i) = 4"
    using assms(1,2) i by (simp_all add: shape_ok_def list_all_length)
  show "g ! i = h ! i"
  proof (rule nth_equalityI)
    show "length (g ! i) = length (h ! i)" by (simp add: lg lh)
  next
    fix j assume "j < length (g ! i)"
    then have j: "j < 4" by (simp add: lg)
    have "in_board (int j, int i)" using i j by (simp add: in_board_def)
    from assms(3) [OF this] show "g ! i ! j = h ! i ! j" by (simp add: cell_at_def)
  qed
qed

lemma board_eq_iff_grid:
  assumes "shape_ok (grid a)" "shape_ok (grid b)"
  shows "board_eq a b \<longleftrightarrow> grid a = grid b"
proof -
  have len: "length (grid a) = length (grid b)"
    using assms by (simp add: shape_ok_def)
  have "\<forall>(x, y) \<in> set (zip (grid a) (grid b)). length x = length y"
  proof -
    have "length x = length y" if "(x, y) \<in> set (zip (grid a) (grid b))" for x y
    proof -
      from that have "x \<in> set (grid a)" "y \<in> set (grid b)"
        by (auto dest: set_zip_leftD set_zip_rightD)
      with assms show ?thesis by (simp add: shape_ok_def list_all_iff)
    qed
    then show ?thesis by blast
  qed
  from concat_eq_concat_iff [OF this len] show ?thesis
    by (simp add: board_eq_def board_str_def)
qed

lemma ex_wf: "wf_state ex_state"
  by code_simp

lemma ex_gen: "generate_successors ex_state = Inr ex_succs"
  by code_simp

lemma read_char_canonical:
  "list_all canonical (fst st) \<Longrightarrow> list_all canonical (fst (read_char st y x ch))"
  by (simp add: read_char_def canonical_def)

lemma read_line_canonical:
  "list_all canonical (fst st) \<Longrightarrow> list_all canonical (fst (read_line st y x line))"
proof (induction line arbitrary: st x)
  case Nil
  then show ?case by simp
next
  case (Cons ch rest)
  from Cons.IH [OF read_char_canonical [OF Cons.prems]] show ?case by simp
qed

lemma read_lines_canonical:
  "list_all canonical (fst st) \<Longrightarrow> list_all canonical (read_lines st y puzzle)"
proof (induction puzzle arbitrary: st y)
  case Nil
  then show ?case by simp
next
  case (Cons line rest)
  from Cons.IH [OF read_line_canonical [OF Cons.prems]] show ?case by simp
qed

lemma read_from_file_canonical:
  "read_from_file puzzle = Inr b \<Longrightarrow> list_all canonical (pieces b)"
  unfolding read_from_file_def
  by (drule Board_pieces) (simp add: read_lines_canonical)

section \<open>Lemmas about the searches\<close>

lemma finite_grids: "finite grids"
proof -
  have "{r :: char list. length r = 4} = {r. set r \<subseteq> UNIV \<and> length r = 4}" by simp
  then have "finite {r :: char list. length r = 4}"
    using finite_lists_length_eq [of "UNIV :: char set" 4] by simp
  from finite_lists_length_eq [OF this, of 5] show ?thesis
    by (simp add: grids_def conj_commute)
qed

lemma shape_ok_grids: "shape_ok g \<Longrightarrow> g \<in> grids"
  by (auto simp: shape_ok_def grids_def list_all_iff)

lemma wf_state_grid: "wf_state s \<Longrightarrow> grid (board s) \<in> grids"
  unfolding wf_state_def
  by (rule shape_ok_grids) (erule conjE, rule Board_render_grid(2))

lemma reach_wf:
  assumes "wf_state init" "reach init s"
  shows "wf_state s"
  using assms(2)
proof (induction rule: reach.induct)
  case reach_init
  show ?case by (rule assms(1))
next
  case (reach_step s succs t)
  from generate_successors_wf [OF reach_step.IH] reach_step.hyps(2,3)
  show ?case by auto
qed

lemma dfs_push_props:
  "dfs_push fr ex ts = (fr', ex') \<Longrightarrow>
     set ex' = set ex \<union> (\<lambda>t. grid (board t)) ` set ts \<and>
     set fr' \<subseteq> set fr \<union> set ts \<and>
     (set ex' = set ex \<longrightarrow> fr' = fr)"
proof (induction ts arbitrary: fr ex)
  case Nil
  then show ?case by simp
next
  case (Cons t ts)
  show ?case
  proof (cases "grid (board t) \<in> set ex")
    case True
    with Cons.prems have "dfs_push fr ex ts = (fr', ex')" by simp
    from Cons.IH [OF this] True show ?thesis by auto
  next
    case False
    with Cons.prems have "dfs_push (fr @ [t]) (ex @ [grid (board t)]) ts = (fr', ex')" by simp
    from Cons.IH [OF this] False show ?thesis by auto
  qed
qed

lemma chain_unfold:
  "chain s = (case parent s of None \<Rightarrow> [] | Some p \<Rightarrow> chain p) @ [s]"
  by (cases s) simp

lemma path_to_root_unfold:
  "path_to_root s = board s # (case parent s of None \<Rightarrow> [] | Some p \<Rightarrow> path_to_root p)"
  by (cases s) simp

lemma path_to_root_chain: "path_to_root s = rev (map board (chain s))"
proof (induction s rule: chain.induct)
  case (1 b v d par)
  then show ?case by (cases par) simp_all
qed

lemma write_path_eq:
  "write_path path out n =
     (out @ concat (map (\<lambda>b. grid_text (grid b)) (rev path)), n + int (length path))"
proof (induction path out n rule: write_path.induct)
  case (1 path out n)
  show ?case
  proof (cases "path = []")
    case True
    then show ?thesis by simp
  next
    case False
    then obtain xs x where p: "path = xs @ [x]" by (metis rev_exhaust)
    from 1 [OF False] show ?thesis
      by (subst write_path.simps) (simp add: p)
  qed
qed

lemma get_solution_None: "get_solution None = ([], 0)"
  by (simp add: get_solution_def)

lemma get_solution_Some:
  "get_solution (Some t) =
     (concat (map (\<lambda>s. grid_text (grid (board s))) (chain t)), int (length (chain t)))"
  by (simp add: get_solution_def write_path_eq path_to_root_chain rev_map [symmetric] comp_def
      del: write_path.simps)

lemma successor_links:
  assumes "generate_successors s = Inr succs" "t \<in> set succs"
  shows "parent t = Some s" and "depth t = depth s + 1"
    and "\<exists>h. manhattan (board t) = Inr h \<and> f t = h + depth s + 1"
proof -
  from generate_successors_mem [OF assms] obtain i q where "mk_successor s i q = Inr t" by blast
  from mk_successor_Inr [OF this]
  show "parent t = Some s" and "depth t = depth s + 1"
    and "\<exists>h. manhattan (board t) = Inr h \<and> f t = h + depth s + 1" by blast+
qed

lemma reach_chain:
  assumes init: "parent init = None" "depth init = 0" and r: "reach init t"
  shows "chain t ! 0 = init \<and> last (chain t) = t \<and> int (length (chain t)) = depth t + 1 \<and>
         (\<forall>k. Suc k < length (chain t) \<longrightarrow>
            (\<exists>succs. generate_successors (chain t ! k) = Inr succs \<and>
               chain t ! Suc k \<in> set succs))"
  using r
proof (induction rule: reach.induct)
  case reach_init
  have "chain init = [init]" using init(1) by (subst chain_unfold) simp
  then show ?case using init(2) by simp
next
  case (reach_step s succs t)
  from successor_links [OF reach_step.hyps(2,3)]
  have pt: "parent t = Some s" and dt: "depth t = depth s + 1" by simp_all
  have c: "chain t = chain s @ [t]" using pt by (subst chain_unfold) simp
  have ne: "chain s \<noteq> []" by (subst chain_unfold) simp
  show ?case
  proof (intro conjI allI impI)
    show "chain t ! 0 = init" using reach_step.IH ne by (simp add: c nth_append)
    show "last (chain t) = t" by (simp add: c)
    show "int (length (chain t)) = depth t + 1" using reach_step.IH by (simp add: c dt)
  next
    fix k assume k: "Suc k < length (chain t)"
    show "\<exists>succs. generate_successors (chain t ! k) = Inr succs \<and> chain t ! Suc k \<in> set succs"
    proof (cases "Suc k < length (chain s)")
      case True
      with reach_step.IH show ?thesis by (simp add: c nth_append)
    next
      case False
      with k have k': "Suc k = length (chain s)" by (simp add: c)
      then have "k = length (chain s) - 1" "k < length (chain s)" by simp_all
      then have "chain t ! k = last (chain s)"
        using ne by (simp add: c nth_append last_conv_nth)
      then have "chain t ! k = s" using reach_step.IH by simp
      moreover have "chain t ! Suc k = t" by (simp add: c k')
      ultimately show ?thesis using reach_step.hyps(2,3) by simp
    qed
  qed
qed

lemma board_inv_mem:
  assumes "board_inv ps" "p \<in> set ps"
  shows "canonical p" and "set (cells p) \<subseteq> set (all_cells ps)"
    and "d \<in> set (cells p) \<Longrightarrow> in_board d"
proof -
  show "canonical p" using assms by (simp add: board_inv_def list_all_iff)
  show s: "set (cells p) \<subseteq> set (all_cells ps)" using assms(2) by (auto simp: all_cells_def)
  show "in_board d" if "d \<in> set (cells p)"
    using assms(1) s that by (auto simp: board_inv_def list_all_iff all_cells_def)
qed

lemma marks_sub_all_marks: "p \<in> set ps \<Longrightarrow> set (marks p) \<subseteq> set (all_marks ps)"
  by (auto simp: all_marks_def)

lemma nongoal_mark_determines:
  assumes "canonical p" "canonical q" "\<not> is_goal p"
    and "((coord_x p, coord_y p), c) \<in> set (marks p)" "((coord_x p, coord_y p), c) \<in> set (marks q)"
  shows "q = p"
  using assms
  by (cases p; cases q)
    (auto simp: canonical_def marks_def Let_def char_goal_def char_single_def split: if_splits)

lemma anchor_mark:
  "canonical p \<Longrightarrow> \<exists>c. ((coord_x p, coord_y p), c) \<in> set (marks p)"
  by (auto simp: canonical_def marks_def Let_def)

lemma goal_cells_determine:
  assumes "canonical p" "canonical q" "is_goal p" "is_goal q" "set (cells p) = set (cells q)"
  shows "q = p"
proof -
  have "(coord_x p, coord_y p) \<in> set (cells p)" "(coord_x p + 1, coord_y p + 1) \<in> set (cells p)"
    using assms(3) by (simp_all add: cells_eq)
  with assms(5)
  have "(coord_x p, coord_y p) \<in> set (cells q)" "(coord_x p + 1, coord_y p + 1) \<in> set (cells q)"
    by blast+
  then have "coord_x q = coord_x p \<and> coord_y q = coord_y p"
    using assms(4) by (auto simp: cells_eq)
  then show ?thesis
    using assms(1-4) by (cases p; cases q) (auto simp: canonical_def)
qed

lemma one_goal_ex:
  assumes "length (filter is_goal ps) = 1"
  shows "\<exists>p. filter is_goal ps = [p] \<and> is_goal p \<and> p \<in> set ps \<and>
           (\<forall>q. q \<in> set ps \<and> is_goal q \<longrightarrow> q = p)"
proof -
  from assms obtain p where p: "filter is_goal ps = [p]"
    by (cases "filter is_goal ps") auto
  then have s: "set (filter is_goal ps) = {p}" by simp
  then have "is_goal p" "p \<in> set ps" by auto
  moreover have "q = p" if "q \<in> set ps \<and> is_goal q" for q
    using s that by auto
  ultimately show ?thesis using p by blast
qed

lemma pieces_of_grid_sub:
  assumes ip: "board_inv ps" and bp: "Board ps = Inr a"
    and iq: "board_inv qs" and bq: "Board qs = Inr b" and g: "grid a = grid b"
    and p: "p \<in> set ps"
  shows "p \<in> set qs"
proof -
  have cp: "canonical p" by (rule board_inv_mem(1) [OF ip p])
  have dp: "distinct (all_cells ps)" and dq: "distinct (all_cells qs)"
    using ip iq by (simp_all add: board_inv_def all_cells_def)
  show ?thesis
  proof (cases "is_goal p")
    case True
    from ip have "length (filter is_goal ps) = 1" by (simp add: board_inv_def)
    from one_goal_ex [OF this] p True have fp: "filter is_goal ps = [p]" by blast
    from iq have "length (filter is_goal qs) = 1" by (simp add: board_inv_def)
    from one_goal_ex [OF this]
    obtain q where q: "filter is_goal qs = [q]" "is_goal q" "q \<in> set qs" by blast
    have cq: "canonical q" by (rule board_inv_mem(1) [OF iq q(3)])
    have "d \<in> set (cells p) \<longleftrightarrow> d \<in> set (cells q)" for d
    proof (cases "in_board d")
      case True
      from goal_cell_iff [OF ip bp True fp] goal_cell_iff [OF iq bq True q(1)] g
      show ?thesis by simp
    next
      case False
      with board_inv_mem(3) [OF ip p] board_inv_mem(3) [OF iq q(3)] show ?thesis by blast
    qed
    then have "set (cells p) = set (cells q)" by blast
    from goal_cells_determine [OF cp cq True q(2) this] q(3) show ?thesis by simp
  next
    case False
    from anchor_mark [OF cp] obtain c where c: "((coord_x p, coord_y p), c) \<in> set (marks p)" ..
    let ?a = "(coord_x p, coord_y p)"
    have nd: "c \<noteq> CHR ''.''" by (rule marks_not_dot [OF c])
    have ia: "in_board ?a"
      using c by (intro board_inv_mem(3) [OF ip p]) (force simp: cells_def)
    from c marks_sub_all_marks [OF p] have "(?a, c) \<in> set (all_marks ps)" by blast
    then have "render ps ?a = c" by (simp add: render_eq_iff [OF dp nd])
    then have "render qs ?a = c"
      using Board_render_grid(3) [OF ip bp ia] Board_render_grid(3) [OF iq bq ia] g by simp
    then have "(?a, c) \<in> set (all_marks qs)" by (simp add: render_eq_iff [OF dq nd])
    then obtain q where q: "q \<in> set qs" "(?a, c) \<in> set (marks q)"
      by (auto simp: all_marks_def)
    from nongoal_mark_determines [OF cp board_inv_mem(1) [OF iq q(1)] False c q(2)] q(1)
    show ?thesis by simp
  qed
qed

lemma pieces_of_grid:
  assumes "wf_state a" "wf_state b" "grid (board a) = grid (board b)"
  shows "set (pieces (board a)) = set (pieces (board b))"
proof -
  from assms(1,2) have a: "board_inv (pieces (board a))" "Board (pieces (board a)) = Inr (board a)"
    and b: "board_inv (pieces (board b))" "Board (pieces (board b)) = Inr (board b)"
    by (simp_all add: wf_state_def)
  show ?thesis
    using pieces_of_grid_sub [OF a b assms(3)] pieces_of_grid_sub [OF b a assms(3) [symmetric]]
    by blast
qed

lemma wf_state_shape: "wf_state s \<Longrightarrow> shape_ok (grid (board s))"
  unfolding wf_state_def by (erule conjE) (rule Board_render_grid(2))

lemma key_eq_iff:
  assumes "wf_state a" "wf_state b"
  shows "key a = key b \<longleftrightarrow> grid (board a) = grid (board b)"
  using board_eq_iff_grid [OF wf_state_shape [OF assms(1)] wf_state_shape [OF assms(2)]]
  by (simp add: key_def board_eq_def)

lemma key_length:
  assumes "wf_state s"
  shows "length (key s) = 20"
proof -
  from wf_state_shape [OF assms] have l: "length (grid (board s)) = 5"
    and r: "\<forall>x \<in> set (grid (board s)). length x = 4"
    by (simp_all add: shape_ok_def list_all_iff)
  from r have "map length (grid (board s)) = replicate (length (grid (board s))) 4"
    by (simp add: map_replicate_const [symmetric] cong: map_cong)
  then show ?thesis
    by (simp add: key_def board_str_def length_concat l sum_list_replicate)
qed

lemma goal_test_grid: "grid (board a) = grid (board b) \<Longrightarrow> goal_test a = goal_test b"
  by (simp add: goal_test_def)

lemma is_empty_grid: "grid a = grid b \<Longrightarrow> is_empty a x y = is_empty b x y"
  by (simp add: is_empty_def empty_spaces_def)

lemma legal_grid: "grid a = grid b \<Longrightarrow> legal a p d = legal b p d"
  by (simp add: legal_def is_empty_grid [of a b])

lemma generated_grid:
  assumes "grid a = grid b"
  shows "generated a p d = generated b p d"
proof -
  have "legal a p e = legal b p e" for e by (rule legal_grid [OF assms])
  then show ?thesis by (cases d) (simp_all add: generated_def suppressed_def)
qed

lemma manhattan_grid:
  assumes a: "wf_state a" and b: "wf_state b" and g: "grid (board a) = grid (board b)"
  shows "manhattan (board a) = manhattan (board b)"
proof -
  from a b have ia: "length (filter is_goal (pieces (board a))) = 1"
    and ib: "length (filter is_goal (pieces (board b))) = 1"
    by (simp_all add: wf_state_def board_inv_def)
  from one_goal_ex [OF ia] obtain p where p: "filter is_goal (pieces (board a)) = [p]"
    "is_goal p" "p \<in> set (pieces (board a))" by blast
  from one_goal_ex [OF ib] obtain q where q: "filter is_goal (pieces (board b)) = [q]"
    "\<forall>r. r \<in> set (pieces (board b)) \<and> is_goal r \<longrightarrow> r = q" by blast
  from p(3) pieces_of_grid [OF a b g] have "p \<in> set (pieces (board b))" by simp
  with q(2) p(2) have "p = q" by blast
  with p(1) q(1) show ?thesis
    by (simp add: manhattan_def get_goal_def get_goal_of_filter)
qed

lemma render_set_eq:
  assumes "set qs = set ps" "board_inv ps" "board_inv qs"
  shows "render qs = render ps"
proof -
  have dq: "distinct (map fst (all_marks qs))"
    using board_inv_cells [OF assms(3)] by (simp add: map_fst_all_marks)
  have dp: "distinct (map fst (all_marks ps))"
    using board_inv_cells [OF assms(2)] by (simp add: map_fst_all_marks)
  have "set (all_marks qs) = set (all_marks ps)"
    by (simp add: all_marks_def assms(1))
  then have "map_of (all_marks qs) = map_of (all_marks ps)"
    by (simp add: map_of_inject_set [OF dq dp])
  then show ?thesis by (simp add: render_def fun_eq_iff)
qed

lemma grid_set_eq:
  assumes a: "wf_state a" and b: "wf_state b"
    and s: "set (pieces (board a)) = set (pieces (board b))"
  shows "grid (board a) = grid (board b)"
proof (rule grid_ext)
  from a b have ia: "board_inv (pieces (board a))" "Board (pieces (board a)) = Inr (board a)"
    and ib: "board_inv (pieces (board b))" "Board (pieces (board b)) = Inr (board b)"
    by (simp_all add: wf_state_def)
  show "shape_ok (grid (board a))" by (rule wf_state_shape [OF a])
  show "shape_ok (grid (board b))" by (rule wf_state_shape [OF b])
  fix d assume d: "in_board d"
  show "cell_at (grid (board a)) d = cell_at (grid (board b)) d"
    by (simp only: Board_render_grid(3) [OF ia d] Board_render_grid(3) [OF ib d]
        render_set_eq [OF s ib(1) ia(1)])
qed

lemma cells_nonempty: "canonical p \<Longrightarrow> cells p \<noteq> []"
  by (auto simp: canonical_def cells_eq)

lemma distinct_concat_map:
  "distinct (concat (map h xs)) \<Longrightarrow> (\<And>x. x \<in> set xs \<Longrightarrow> h x \<noteq> []) \<Longrightarrow> distinct xs"
proof (induction xs)
  case Nil
  show ?case by simp
next
  case (Cons x xs)
  have "x \<notin> set xs"
  proof
    assume "x \<in> set xs"
    then have "set (h x) \<subseteq> set (concat (map h xs))" by auto
    then have "set (h x) \<inter> set (concat (map h xs)) = set (h x)" by (rule Int_absorb2)
    moreover from Cons.prems(1) have "set (h x) \<inter> set (concat (map h xs)) = {}" by simp
    ultimately have "set (h x) = {}" by simp
    with Cons.prems(2) [of x] show False by simp
  qed
  moreover have "distinct xs"
  proof (rule Cons.IH)
    show "distinct (concat (map h xs))" using Cons.prems(1) by simp
    show "h y \<noteq> []" if "y \<in> set xs" for y using Cons.prems(2) [of y] that by simp
  qed
  ultimately show ?case by simp
qed

lemma board_inv_distinct:
  assumes "board_inv ps"
  shows "distinct ps"
proof (rule distinct_concat_map [of cells])
  show "distinct (concat (map cells ps))" using assms by (simp add: board_inv_def)
  show "cells p \<noteq> []" if "p \<in> set ps" for p
    using assms that by (simp add: board_inv_def list_all_iff cells_nonempty)
qed

lemma set_others:
  assumes "distinct ps" "i < length ps"
  shows "set (others ps i) = set ps - {ps ! i}"
proof -
  define xs ys p where "xs = take i ps" and "ys = drop (Suc i) ps" and "p = ps ! i"
  have ps: "ps = xs @ p # ys"
    unfolding xs_def ys_def p_def by (rule split_at [OF assms(2)])
  from assms(1) have "distinct (xs @ p # ys)" by (simp only: ps [symmetric])
  then have "p \<notin> set xs" "p \<notin> set ys" by auto
  moreover have "set ps = set xs \<union> {p} \<union> set ys"
    by (subst ps) auto
  ultimately have "set xs \<union> set ys = set ps - {p}" by auto
  then show ?thesis by (simp add: others_def xs_def ys_def p_def)
qed

lemma gen_wf_mem:
  assumes "wf_state s" "generate_successors s = Inr succs" "t \<in> set succs"
  shows "wf_state t" and "\<exists>i d. succ_of s i d t"
  using generate_successors_wf [OF assms(1)] assms(2,3) by auto

lemma gen_wf_generated:
  assumes "wf_state s" "generate_successors s = Inr succs"
    "i < length (pieces (board s))" "generated (board s) (pieces (board s) ! i) d"
  shows "\<exists>t \<in> set succs. succ_of s i d t"
  using generate_successors_wf [OF assms(1)] assms(2-4) by auto

lemma successor_grid_bisim:
  assumes s: "wf_state s" and e: "wf_state e" and g: "grid (board s) = grid (board e)"
    and gs: "generate_successors s = Inr succs" and t: "t \<in> set succs"
    and ge: "generate_successors e = Inr succs'"
  shows "\<exists>t' \<in> set succs'. grid (board t') = grid (board t)"
proof -
  let ?ps = "pieces (board s)" and ?qs = "pieces (board e)"
  from gen_wf_mem [OF s gs t] obtain i d where wt: "wf_state t" and so: "succ_of s i d t"
    by blast
  from so have i: "i < length ?ps" and gen: "generated (board s) (?ps ! i) d"
    and pt: "pieces (board t) = move_piece (?ps ! i) d # others ?ps i"
    by (simp_all add: succ_of_def)
  have sets: "set ?ps = set ?qs" by (rule pieces_of_grid [OF s e g])
  from i have "?ps ! i \<in> set ?ps" by simp
  with sets obtain j where j: "j < length ?qs" "?qs ! j = ?ps ! i"
    by (auto simp: in_set_conv_nth)
  from gen have "generated (board e) (?qs ! j) d"
    by (simp add: j(2) generated_grid [OF g])
  from gen_wf_generated [OF e ge j(1) this]
  obtain t' where t': "t' \<in> set succs'" "succ_of e j d t'" by blast
  from t'(2) have pt': "pieces (board t') = move_piece (?ps ! i) d # others ?qs j"
    by (simp add: succ_of_def j(2))
  have wt': "wf_state t'" by (rule gen_wf_mem(1) [OF e ge t'(1)])
  from s e have "distinct ?ps" "distinct ?qs"
    by (simp_all add: wf_state_def board_inv_distinct)
  then have "set (others ?ps i) = set (others ?qs j)"
    using set_others [of ?ps i] set_others [of ?qs j] i j sets by simp
  then have "set (pieces (board t')) = set (pieces (board t))"
    by (simp add: pt pt')
  from grid_set_eq [OF wt' wt this] t'(1) show ?thesis by blast
qed

lemma filter_goal_others:
  assumes "i < length ps" "\<not> is_goal (ps ! i)"
  shows "filter is_goal (others ps i) = filter is_goal ps"
proof -
  define xs ys p where "xs = take i ps" and "ys = drop (Suc i) ps" and "p = ps ! i"
  have ps: "ps = xs @ p # ys"
    unfolding xs_def ys_def p_def by (rule split_at [OF assms(1)])
  have "filter is_goal (xs @ ys) = filter is_goal (xs @ p # ys)"
    using assms(2) by (simp add: p_def)
  then show ?thesis
    by (simp only: others_def xs_def [symmetric] ys_def [symmetric] ps [symmetric])
qed

lemma hval_manhattan:
  "wf_state s \<Longrightarrow> manhattan (board s) = Inr (hval s) \<and> 0 \<le> hval s"
  using manhattan_board_inv [of "pieces (board s)" "board s"]
  by (auto simp: wf_state_def hval_def)

lemma hval_step:
  assumes s: "wf_state s" and gs: "generate_successors s = Inr succs" and t: "t \<in> set succs"
  shows "\<bar>hval t - hval s\<bar> \<le> 1"
proof -
  let ?ps = "pieces (board s)"
  from gen_wf_mem [OF s gs t] obtain i d where wt: "wf_state t" and so: "succ_of s i d t"
    by blast
  from so have i: "i < length ?ps"
    and pt: "pieces (board t) = move_piece (?ps ! i) d # others ?ps i"
    by (simp_all add: succ_of_def)
  from s have "length (filter is_goal ?ps) = 1" by (simp add: wf_state_def board_inv_def)
  from one_goal_ex [OF this] obtain p where p: "filter is_goal ?ps = [p]"
    "\<forall>q. q \<in> set ?ps \<and> is_goal q \<longrightarrow> q = p" by blast
  have hs: "hval s = \<bar>coord_x p - 1\<bar> + \<bar>coord_y p - 3\<bar>"
    by (simp add: hval_def manhattan_def get_goal_def get_goal_of_filter p(1))
  show ?thesis
  proof (cases "is_goal (?ps ! i)")
    case True
    with p(2) i have pi: "?ps ! i = p" by simp
    have "hval t = \<bar>coord_x (move_piece p d) - 1\<bar> + \<bar>coord_y (move_piece p d) - 3\<bar>"
      using True by (simp add: hval_def manhattan_def get_goal_def pt pi)
    then show ?thesis
      unfolding hs by (cases d) (simp_all add: move_piece_def)
  next
    case False
    then have "filter is_goal (pieces (board t)) = [p]"
      by (simp add: pt filter_goal_others [OF i False] p(1))
    then have "hval t = \<bar>coord_x p - 1\<bar> + \<bar>coord_y p - 3\<bar>"
      by (simp add: hval_def manhattan_def get_goal_def get_goal_of_filter)
    with hs show ?thesis by simp
  qed
qed

lemma reach_facts:
  assumes init: "is_initial init" and r: "reach init s"
  shows "f s = hval s + depth s \<and> 0 \<le> depth s"
  using r
proof (induction rule: reach.induct)
  case reach_init
  from init show ?case by (simp add: is_initial_def hval_def)
next
  case (reach_step s succs t)
  from successor_links [OF reach_step.hyps(2,3)] reach_step.IH
  show ?case by (auto simp: hval_def)
qed

lemma hval_reach:
  assumes "wf_state a" "reach a t"
  shows "hval a \<le> hval t + (depth t - depth a)"
  using assms(2)
proof (induction rule: reach.induct)
  case reach_init
  show ?case by simp
next
  case (reach_step s succs t)
  have "wf_state s" by (rule reach_wf [OF assms(1) reach_step.hyps(1)])
  from hval_step [OF this reach_step.hyps(2,3)] successor_links(2) [OF reach_step.hyps(2,3)]
    reach_step.IH
  show ?case by linarith
qed

lemma hval_goal:
  assumes "wf_state s" "goal_test s"
  shows "hval s = 0"
proof -
  let ?ps = "pieces (board s)"
  from assms(1) have inv: "board_inv ?ps" and b: "Board ?ps = Inr (board s)"
    by (simp_all add: wf_state_def)
  from inv have "length (filter is_goal ?ps) = 1" by (simp add: board_inv_def)
  from one_goal_ex [OF this] obtain p where p: "filter is_goal ?ps = [p]" "is_goal p" by blast
  have "(1, 3) \<in> set (cells p) \<and> (2, 4) \<in> set (cells p)"
    using assms(2) goal_cell_iff [OF inv b _ p(1)]
    by (simp add: goal_test_cells in_board_def)
  then have "coord_x p = 1 \<and> coord_y p = 3"
    using p(2) by (auto simp: cells_eq)
  then show ?thesis
    by (simp add: hval_def manhattan_def get_goal_def get_goal_of_filter p(1))
qed

lemma contract_push:
  assumes "heap_contract I heappush heappop" "I h"
  shows "I (heappush h x)" and "mset (heappush h x) = add_mset x (mset h)"
    and "set (heappush h x) = insert x (set h)"
proof -
  from assms show 1: "I (heappush h x)" and 2: "mset (heappush h x) = add_mset x (mset h)"
    by (simp_all add: heap_contract_def)
  from 2 have "set_mset (mset (heappush h x)) = set_mset (add_mset x (mset h))" by simp
  then show "set (heappush h x) = insert x (set h)" by simp
qed

lemma contract_pop:
  assumes "heap_contract I heappush heappop" "I h" "h \<noteq> []"
  shows "I (snd (heappop h))" and "mset h = add_mset (fst (heappop h)) (mset (snd (heappop h)))"
    and "set h = insert (fst (heappop h)) (set (snd (heappop h)))"
    and "y \<in> set h \<Longrightarrow> f (fst (heappop h)) \<le> f y"
    and "length (snd (heappop h)) < length h"
proof -
  from assms show 1: "I (snd (heappop h))"
    and 2: "mset h = add_mset (fst (heappop h)) (mset (snd (heappop h)))"
    by (simp_all add: heap_contract_def)
  from 2 have "set_mset (mset h) = set_mset (add_mset (fst (heappop h)) (mset (snd (heappop h))))"
    by simp
  then show "set h = insert (fst (heappop h)) (set (snd (heappop h)))" by simp
  show "f (fst (heappop h)) \<le> f y" if "y \<in> set h"
  proof -
    from assms that have "\<not> state_lt y (fst (heappop h))"
      by (simp add: heap_contract_def)
    then show ?thesis by (simp add: state_lt_def)
  qed
  from 2 have "size (mset h) = size (add_mset (fst (heappop h)) (mset (snd (heappop h))))"
    by simp
  then show "length (snd (heappop h)) < length h" by simp
qed

lemma astar_push_props:
  assumes c: "heap_contract I heappush heappop"
  shows "I F0 \<Longrightarrow> astar_push heappush F0 E ts = (F', E') \<Longrightarrow>
         I F' \<and> set F0 \<subseteq> set F' \<and> set F' \<subseteq> set F0 \<union> set ts \<and>
         (\<forall>k e'. E' k = Some e' \<longrightarrow>
            E k = Some e' \<or> (e' \<in> set ts \<and> e' \<in> set F' \<and> key e' = k)) \<and>
         (\<forall>k e. E k = Some e \<longrightarrow> (\<exists>e'. E' k = Some e' \<and> f e' \<le> f e)) \<and>
         (\<forall>t \<in> set ts. \<exists>e'. E' (key t) = Some e' \<and> f e' \<le> f t)"
proof (induction ts arbitrary: F0 E)
  case Nil
  then show ?case by auto
next
  case (Cons t ts)
  show ?case
  proof (cases "case E (key t) of None \<Rightarrow> True | Some old \<Rightarrow> state_lt t old")
    case True
    let ?F1 = "heappush F0 t" and ?E1 = "E(key t \<mapsto> t)"
    from True Cons.prems(2) have r: "astar_push heappush ?F1 ?E1 ts = (F', E')"
      by (simp add: key_def)
    have i1: "I ?F1" and s1: "set ?F1 = insert t (set F0)"
      using contract_push [OF c Cons.prems(1)] by simp_all
    from Cons.IH [OF i1 r]
    have ih1: "I F'" and ih2: "set ?F1 \<subseteq> set F'" and ih3: "set F' \<subseteq> set ?F1 \<union> set ts"
      and ih4: "\<And>k e'. E' k = Some e' \<Longrightarrow>
                 ?E1 k = Some e' \<or> (e' \<in> set ts \<and> e' \<in> set F' \<and> key e' = k)"
      and ih5: "\<And>k e. ?E1 k = Some e \<Longrightarrow> \<exists>e'. E' k = Some e' \<and> f e' \<le> f e"
      and ih6: "\<And>u. u \<in> set ts \<Longrightarrow> \<exists>e'. E' (key u) = Some e' \<and> f e' \<le> f u"
      by blast+
    have tF: "t \<in> set F'" using ih2 s1 by blast
    have p4: "E k = Some e' \<or> (e' \<in> set (t # ts) \<and> e' \<in> set F' \<and> key e' = k)"
      if "E' k = Some e'" for k e'
    proof -
      from ih4 [OF that] show ?thesis
      proof
        assume "?E1 k = Some e'"
        then show ?thesis using tF by (cases "k = key t") auto
      next
        assume "e' \<in> set ts \<and> e' \<in> set F' \<and> key e' = k"
        then show ?thesis by simp
      qed
    qed
    have p5: "\<exists>e'. E' k = Some e' \<and> f e' \<le> f e" if "E k = Some e" for k e
    proof (cases "k = key t")
      case k: True
      with that True have "f t < f e" by (simp add: state_lt_def)
      moreover from ih5 [of "key t" t] obtain e' where "E' (key t) = Some e'" "f e' \<le> f t"
        by auto
      ultimately show ?thesis using k by auto
    next
      case False
      with that have "?E1 k = Some e" by simp
      from ih5 [OF this] show ?thesis .
    qed
    have p6: "\<exists>e'. E' (key u) = Some e' \<and> f e' \<le> f u" if "u \<in> set (t # ts)" for u
    proof (cases "u = t")
      case True
      from ih5 [of "key t" t] show ?thesis by (simp add: True)
    next
      case False
      with that have "u \<in> set ts" by simp
      from ih6 [OF this] show ?thesis .
    qed
    from ih1 ih2 ih3 s1 p4 p5 p6 show ?thesis by auto
  next
    case False
    then obtain old where old: "E (key t) = Some old" "\<not> state_lt t old"
      by (auto split: option.splits)
    from False Cons.prems(2) have r: "astar_push heappush F0 E ts = (F', E')"
      by (simp add: key_def)
    from Cons.IH [OF Cons.prems(1) r]
    have ih1: "I F'" and ih2: "set F0 \<subseteq> set F'" and ih3: "set F' \<subseteq> set F0 \<union> set ts"
      and ih4: "\<And>k e'. E' k = Some e' \<Longrightarrow>
                 E k = Some e' \<or> (e' \<in> set ts \<and> e' \<in> set F' \<and> key e' = k)"
      and ih5: "\<And>k e. E k = Some e \<Longrightarrow> \<exists>e'. E' k = Some e' \<and> f e' \<le> f e"
      and ih6: "\<And>u. u \<in> set ts \<Longrightarrow> \<exists>e'. E' (key u) = Some e' \<and> f e' \<le> f u"
      by blast+
    have p6: "\<exists>e'. E' (key u) = Some e' \<and> f e' \<le> f u" if "u \<in> set (t # ts)" for u
    proof (cases "u = t")
      case True
      from ih5 [OF old(1)] obtain e' where "E' (key t) = Some e'" "f e' \<le> f old" by auto
      with old(2) show ?thesis by (auto simp: True state_lt_def)
    next
      case False
      with that have "u \<in> set ts" by simp
      from ih6 [OF this] show ?thesis .
    qed
    have p4: "E k = Some e' \<or> (e' \<in> set (t # ts) \<and> e' \<in> set F' \<and> key e' = k)"
      if "E' k = Some e'" for k e'
      using ih4 [OF that] by auto
    from ih1 ih2 ih3 p4 ih5 p6 show ?thesis by auto
  qed
qed

lemma finite_keys: "finite keys"
  using finite_lists_length_eq [of "UNIV :: char set" 20] by (simp add: keys_def)

lemma wf_state_key: "wf_state s \<Longrightarrow> key s \<in> keys"
  by (simp add: keys_def key_length)

lemma explored_update_measure:
  assumes fin: "finite (dom E)" and sub: "dom E \<subseteq> keys" and k: "key t \<in> keys" and t: "0 \<le> f t"
    and c: "case E (key t) of None \<Rightarrow> True | Some old \<Rightarrow> state_lt t old"
  shows "card (keys - dom (E(key t \<mapsto> t))) < card (keys - dom E) \<or>
         (card (keys - dom (E(key t \<mapsto> t))) = card (keys - dom E) \<and>
          cost_sum (E(key t \<mapsto> t)) < cost_sum E)"
proof (cases "E (key t)")
  case None
  then have m: "key t \<in> keys - dom E" using k by auto
  have e: "keys - dom (E(key t \<mapsto> t)) = (keys - dom E) - {key t}" by auto
  have "finite (keys - dom E)" using finite_keys by simp
  from card_Diff1_less [OF this m] show ?thesis by (simp only: e) simp
next
  case (Some old)
  with c have lt: "f t < f old" by (simp add: state_lt_def)
  from Some have mem: "key t \<in> dom E" by auto
  then have d: "dom (E(key t \<mapsto> t)) = dom E" by auto
  let ?g = "\<lambda>k. nat (f (the (E k)))" and ?g1 = "\<lambda>k. nat (f (the ((E(key t \<mapsto> t)) k)))"
  have "sum ?g1 (dom E - {key t}) = sum ?g (dom E - {key t})"
    by (rule sum.cong) auto
  moreover have "sum ?g (dom E) = ?g (key t) + sum ?g (dom E - {key t})"
    by (rule sum.remove [OF fin mem])
  moreover have "sum ?g1 (dom E) = ?g1 (key t) + sum ?g1 (dom E - {key t})"
    by (rule sum.remove [OF fin mem])
  moreover have "?g1 (key t) < ?g (key t)" using lt t by (simp add: Some)
  ultimately have "cost_sum (E(key t \<mapsto> t)) < cost_sum E"
    unfolding cost_sum_def d by linarith
  with d show ?thesis by simp
qed

lemma astar_push_measure:
  "finite (dom E) \<Longrightarrow> dom E \<subseteq> keys \<Longrightarrow> (\<forall>k e. E k = Some e \<longrightarrow> 0 \<le> f e) \<Longrightarrow>
   (\<forall>t \<in> set ts. key t \<in> keys \<and> 0 \<le> f t) \<Longrightarrow>
   astar_push heappush F0 E ts = (F', E') \<Longrightarrow>
   finite (dom E') \<and> dom E' \<subseteq> keys \<and> (\<forall>k e. E' k = Some e \<longrightarrow> 0 \<le> f e) \<and>
   ((E' = E \<and> F' = F0) \<or> card (keys - dom E') < card (keys - dom E) \<or>
    (card (keys - dom E') = card (keys - dom E) \<and> cost_sum E' < cost_sum E))"
proof (induction ts arbitrary: F0 E)
  case Nil
  then show ?case by simp
next
  case (Cons t ts)
  from Cons.prems(4) have kt: "key t \<in> keys" "0 \<le> f t"
    and rest: "\<forall>u \<in> set ts. key u \<in> keys \<and> 0 \<le> f u" by simp_all
  show ?case
  proof (cases "case E (key t) of None \<Rightarrow> True | Some old \<Rightarrow> state_lt t old")
    case True
    let ?E1 = "E(key t \<mapsto> t)"
    from True Cons.prems(5) have r: "astar_push heappush (heappush F0 t) ?E1 ts = (F', E')"
      by (simp add: key_def)
    have f1: "finite (dom ?E1)" using Cons.prems(1) by simp
    have s1: "dom ?E1 \<subseteq> keys" using Cons.prems(2) kt(1) by auto
    have n1: "\<forall>k e. ?E1 k = Some e \<longrightarrow> 0 \<le> f e" using Cons.prems(3) kt(2) by auto
    from Cons.IH [OF f1 s1 n1 rest r]
    have ih: "finite (dom E')" "dom E' \<subseteq> keys" "\<forall>k e. E' k = Some e \<longrightarrow> 0 \<le> f e"
      "(E' = ?E1 \<and> F' = heappush F0 t) \<or> card (keys - dom E') < card (keys - dom ?E1) \<or>
       (card (keys - dom E') = card (keys - dom ?E1) \<and> cost_sum E' < cost_sum ?E1)"
      by blast+
    from explored_update_measure [OF Cons.prems(1,2) kt True]
    have "card (keys - dom ?E1) < card (keys - dom E) \<or>
          (card (keys - dom ?E1) = card (keys - dom E) \<and> cost_sum ?E1 < cost_sum E)" .
    with ih(4) have "card (keys - dom E') < card (keys - dom E) \<or>
          (card (keys - dom E') = card (keys - dom E) \<and> cost_sum E' < cost_sum E)"
      by (elim disjE conjE) simp_all
    with ih(1-3) show ?thesis by blast
  next
    case False
    from False Cons.prems(5) have r: "astar_push heappush F0 E ts = (F', E')"
      by (simp add: key_def)
    from Cons.IH [OF Cons.prems(1-3) rest r] show ?thesis .
  qed
qed

lemma same_key:
  assumes "wf_state a" "wf_state b" "key a = key b"
  shows "hval a = hval b" and "goal_test a = goal_test b"
proof -
  from assms have g: "grid (board a) = grid (board b)" by (simp add: key_eq_iff)
  show "hval a = hval b" by (simp add: hval_def manhattan_grid [OF assms(1,2) g])
  show "goal_test a = goal_test b" by (rule goal_test_grid [OF g])
qed

lemma is_initial_wf: "is_initial init \<Longrightarrow> wf_state init"
  by (simp add: is_initial_def)

lemma depth_le_of_f:
  assumes init: "is_initial init" and a: "reach init a" and b: "reach init b"
    and k: "key a = key b" and le: "f a \<le> f b"
  shows "depth a \<le> depth b"
proof -
  have wa: "wf_state a" and wb: "wf_state b"
    using reach_wf [OF is_initial_wf [OF init]] a b by blast+
  from same_key(1) [OF wa wb k] reach_facts [OF init a] reach_facts [OF init b] le
  show ?thesis by linarith
qed

lemma cover:
  assumes init: "is_initial init" and inv: "astar_inv init I F E" and r: "reach init s"
  shows "(\<exists>u \<in> set F. \<exists>s'. reach init s' \<and> reach s' s \<and> key u = key s' \<and> depth u \<le> depth s') \<or>
         (\<exists>e. E (key s) = Some e \<and> depth e \<le> depth s \<and> e \<notin> set F)"
  using r
proof (induction rule: reach.induct)
  case reach_init
  from inv obtain e where e: "E (key init) = Some e" "f e \<le> f init"
    by (auto simp: astar_inv_def)
  with inv have re: "reach init e" and ke: "key e = key init" by (auto simp: astar_inv_def)
  have d: "depth e \<le> depth init"
    by (rule depth_le_of_f [OF init re reach.reach_init ke e(2)])
  show ?case
  proof (cases "e \<in> set F")
    case True
    with ke d reach.reach_init [of init] show ?thesis by blast
  next
    case False
    with e(1) d show ?thesis by blast
  qed
next
  case (reach_step s succs t)
  have rt: "reach init t" by (rule reach.reach_step [OF reach_step.hyps])
  have ws: "wf_state s" by (rule reach_wf [OF is_initial_wf [OF init] reach_step.hyps(1)])
  have dt: "depth t = depth s + 1" by (rule successor_links(2) [OF reach_step.hyps(2,3)])
  from reach_step.IH show ?case
  proof
    assume "\<exists>u \<in> set F. \<exists>s'. reach init s' \<and> reach s' s \<and> key u = key s' \<and> depth u \<le> depth s'"
    then obtain u s' where u: "u \<in> set F" "reach init s'" "reach s' s" "key u = key s'"
      "depth u \<le> depth s'" by blast
    from reach.reach_step [OF u(3) reach_step.hyps(2,3)] have "reach s' t" .
    with u show ?thesis by blast
  next
    assume "\<exists>e. E (key s) = Some e \<and> depth e \<le> depth s \<and> e \<notin> set F"
    then obtain e where e: "E (key s) = Some e" "depth e \<le> depth s" "e \<notin> set F" by blast
    with inv have re: "reach init e" and ke: "key e = key s" and ce: "closed E e"
      by (auto simp: astar_inv_def)
    have we: "wf_state e" by (rule reach_wf [OF is_initial_wf [OF init] re])
    from generate_successors_wf [OF we] obtain succs'
      where ge: "generate_successors e = Inr succs'" by blast
    have g: "grid (board s) = grid (board e)"
      using ke by (simp add: key_eq_iff [OF we ws])
    from successor_grid_bisim [OF ws we g reach_step.hyps(2,3) ge]
    obtain t' where t': "t' \<in> set succs'" "grid (board t') = grid (board t)" by blast
    have rt': "reach init t'" by (rule reach.reach_step [OF re ge t'(1)])
    have wt: "wf_state t" and wt': "wf_state t'"
      using reach_wf [OF is_initial_wf [OF init]] rt rt' by blast+
    have kt: "key t' = key t" using t'(2) by (simp add: key_eq_iff [OF wt' wt])
    from ce ge t'(1) obtain e' where e': "E (key t') = Some e'" "f e' \<le> f t'"
      by (auto simp: closed_def)
    with inv have re': "reach init e'" and ke': "key e' = key t'"
      by (auto simp: astar_inv_def)
    have "depth e' \<le> depth t'" by (rule depth_le_of_f [OF init re' rt' ke' e'(2)])
    moreover have "depth t' = depth e + 1" by (rule successor_links(2) [OF ge t'(1)])
    ultimately have d: "depth e' \<le> depth t" using e(2) dt by linarith
    show ?thesis
    proof (cases "e' \<in> set F")
      case True
      from ke' kt have "key e' = key t" by simp
      with True rt d reach.reach_init [of t] show ?thesis by blast
    next
      case False
      from e'(1) kt have "E (key t) = Some e'" by simp
      with False d show ?thesis by blast
    qed
  qed
qed

lemma frontier_bound:
  assumes init: "is_initial init" and inv: "astar_inv init I F E"
    and r: "reach init t" and g: "goal_test t"
  shows "\<exists>u \<in> set F. f u \<le> depth t"
proof -
  have wt: "wf_state t" by (rule reach_wf [OF is_initial_wf [OF init] r])
  from cover [OF init inv r] show ?thesis
  proof
    assume "\<exists>u \<in> set F. \<exists>s'. reach init s' \<and> reach s' t \<and> key u = key s' \<and> depth u \<le> depth s'"
    then obtain u s' where u: "u \<in> set F" "reach init s'" "reach s' t" "key u = key s'"
      "depth u \<le> depth s'" by blast
    from inv u(1) have ru: "reach init u" by (auto simp: astar_inv_def)
    have wu: "wf_state u" and ws': "wf_state s'"
      using reach_wf [OF is_initial_wf [OF init]] ru u(2) by blast+
    from same_key(1) [OF wu ws' u(4)] reach_facts [OF init ru] hval_reach [OF ws' u(3)]
      hval_goal [OF wt g] u(5)
    have "f u \<le> depth t" by linarith
    with u(1) show ?thesis by blast
  next
    assume "\<exists>e. E (key t) = Some e \<and> depth e \<le> depth t \<and> e \<notin> set F"
    then obtain e where e: "E (key t) = Some e" "e \<notin> set F" by blast
    with inv have re: "reach init e" and ke: "key e = key t" and ce: "closed E e"
      by (auto simp: astar_inv_def)
    have we: "wf_state e" by (rule reach_wf [OF is_initial_wf [OF init] re])
    from same_key(2) [OF we wt ke] g ce show ?thesis by (simp add: closed_def)
  qed
qed

lemma reach_f_nonneg:
  assumes "is_initial init" "reach init s"
  shows "0 \<le> f s" and "key s \<in> keys"
proof -
  have w: "wf_state s" by (rule reach_wf [OF is_initial_wf [OF assms(1)] assms(2)])
  from reach_facts [OF assms] hval_manhattan [OF w] show "0 \<le> f s" by linarith
  show "key s \<in> keys" by (rule wf_state_key [OF w])
qed

lemma closed_mono:
  assumes "closed E s" "\<And>k e. E k = Some e \<Longrightarrow> \<exists>e'. E' k = Some e' \<and> f e' \<le> f e"
  shows "closed E' s"
  unfolding closed_def
proof (intro conjI allI impI)
  show "\<not> goal_test s" using assms(1) by (simp add: closed_def)
next
  fix succs t assume a: "generate_successors s = Inr succs \<and> t \<in> set succs"
  with assms(1) obtain e where e: "E (key t) = Some e" "f e \<le> f t"
    by (auto simp: closed_def)
  from assms(2) [OF e(1)] obtain e' where "E' (key t) = Some e'" "f e' \<le> f e" by blast
  with e(2) show "\<exists>e. E' (key t) = Some e \<and> f e \<le> f t" by auto
qed

lemma astar_step_inv:
  assumes init: "is_initial init" and c: "heap_contract I heappush heappop"
    and inv: "astar_inv init I F E" and ne: "F \<noteq> []"
    and ng: "\<not> goal_test (fst (heappop F))"
    and gen: "generate_successors (fst (heappop F)) = Inr succs"
    and push: "astar_push heappush (snd (heappop F)) E succs = (F', E')"
  shows "astar_inv init I F' E'"
proof -
  let ?m = "fst (heappop F)" and ?F0 = "snd (heappop F)"
  from inv have iF: "I F" and rF: "\<And>s. s \<in> set F \<Longrightarrow> reach init s"
    and fin: "finite (dom E)" and sub: "dom E \<subseteq> keys"
    and ent: "\<And>k e. E k = Some e \<Longrightarrow> reach init e \<and> key e = k \<and> (e \<in> set F \<or> closed E e)"
    and ini: "\<exists>e. E (key init) = Some e \<and> f e \<le> f init"
    by (simp_all add: astar_inv_def)
  have i0: "I ?F0" and sF: "set F = insert ?m (set ?F0)"
    using contract_pop [OF c iF ne] by simp_all
  have rm: "reach init ?m" using rF sF by simp
  have rs: "reach init t" if "t \<in> set succs" for t
    by (rule reach_step [OF rm gen that])
  from astar_push_props [OF c i0 push]
  have p1: "I F'" and p2: "set ?F0 \<subseteq> set F'" and p3: "set F' \<subseteq> set ?F0 \<union> set succs"
    and p4: "\<And>k e'. E' k = Some e' \<Longrightarrow>
               E k = Some e' \<or> (e' \<in> set succs \<and> e' \<in> set F' \<and> key e' = k)"
    and p5: "\<And>k e. E k = Some e \<Longrightarrow> \<exists>e'. E' k = Some e' \<and> f e' \<le> f e"
    and p6: "\<And>t. t \<in> set succs \<Longrightarrow> \<exists>e'. E' (key t) = Some e' \<and> f e' \<le> f t"
    by blast+
  have n: "\<forall>k e. E k = Some e \<longrightarrow> 0 \<le> f e"
    using ent reach_f_nonneg(1) [OF init] by blast
  have ns: "\<forall>t \<in> set succs. key t \<in> keys \<and> 0 \<le> f t"
    using rs reach_f_nonneg [OF init] by blast
  from astar_push_measure [OF fin sub n ns push]
  have fin': "finite (dom E')" and sub': "dom E' \<subseteq> keys" by blast+
  have rF': "\<forall>s \<in> set F'. reach init s"
  proof
    fix s assume "s \<in> set F'"
    with p3 have "s \<in> set ?F0 \<or> s \<in> set succs" by blast
    then show "reach init s" using rF sF rs by auto
  qed
  have cm: "closed E' ?m"
    unfolding closed_def
  proof (intro conjI allI impI)
    show "\<not> goal_test ?m" by (rule ng)
  next
    fix succs2 t assume "generate_successors ?m = Inr succs2 \<and> t \<in> set succs2"
    with gen have "t \<in> set succs" by simp
    from p6 [OF this] show "\<exists>e. E' (key t) = Some e \<and> f e \<le> f t" .
  qed
  have ent': "reach init e' \<and> key e' = k \<and> (e' \<in> set F' \<or> closed E' e')"
    if "E' k = Some e'" for k e'
  proof -
    from p4 [OF that] show ?thesis
    proof
      assume old: "E k = Some e'"
      from ent [OF old] have 1: "reach init e'" "key e' = k" and 2: "e' \<in> set F \<or> closed E e'"
        by simp_all
      from 2 have "e' \<in> set F' \<or> closed E' e'"
      proof
        assume "e' \<in> set F"
        with sF have "e' = ?m \<or> e' \<in> set ?F0" by simp
        then show ?thesis using cm p2 by auto
      next
        assume "closed E e'"
        from closed_mono [OF this p5] show ?thesis by simp
      qed
      with 1 show ?thesis by simp
    next
      assume "e' \<in> set succs \<and> e' \<in> set F' \<and> key e' = k"
      with rs show ?thesis by simp
    qed
  qed
  from ini obtain e where "E (key init) = Some e" "f e \<le> f init" by blast
  with p5 [OF this(1)] have ini': "\<exists>e. E' (key init) = Some e \<and> f e \<le> f init" by auto
  from p1 rF' fin' sub' ent' ini' show ?thesis
    unfolding astar_inv_def by blast
qed

lemma astar_loop_result:
  assumes init: "is_initial init" and c: "heap_contract I heappush heappop"
    and inv: "astar_inv init I F E"
  shows "\<exists>r. astar_loop heappush heappop F E = Some (Inr r) \<and>
           (case r of
              None \<Rightarrow> \<forall>t. reach init t \<longrightarrow> \<not> goal_test t
            | Some m \<Rightarrow> reach init m \<and> goal_test m \<and>
                (\<forall>t. reach init t \<and> goal_test t \<longrightarrow> depth m \<le> depth t))"
proof -
  define R where
    "R = inv_image (less_than <*lex*> less_than <*lex*> less_than)
           (\<lambda>x :: state list \<times> (string \<rightharpoonup> state).
              (card (keys - dom (snd x)), cost_sum (snd x), length (fst x)))"
  have wfR: "wf R" unfolding R_def by (intro wf_inv_image wf_lex_prod wf_less_than)
  have "astar_inv init I (fst x) (snd x) \<longrightarrow>
        (\<exists>r. astar_loop heappush heappop (fst x) (snd x) = Some (Inr r) \<and>
           (case r of
              None \<Rightarrow> \<forall>t. reach init t \<longrightarrow> \<not> goal_test t
            | Some m \<Rightarrow> reach init m \<and> goal_test m \<and>
                (\<forall>t. reach init t \<and> goal_test t \<longrightarrow> depth m \<le> depth t)))" for x
  proof (induction x rule: wf_induct_rule [OF wfR])
    case (1 x)
    obtain F E where x: "x = (F, E)" by (cases x)
    show ?case
    proof
      assume "astar_inv init I (fst x) (snd x)"
      then have inv: "astar_inv init I F E" by (simp add: x)
      from inv have iF: "I F" and rF: "\<And>s. s \<in> set F \<Longrightarrow> reach init s"
        and fin: "finite (dom E)" and sub: "dom E \<subseteq> keys"
        and ent: "\<And>k e. E k = Some e \<Longrightarrow> reach init e"
        by (simp_all add: astar_inv_def)
      let ?goal = "\<lambda>r. case r of
              None \<Rightarrow> \<forall>t. reach init t \<longrightarrow> \<not> goal_test t
            | Some m \<Rightarrow> reach init m \<and> goal_test m \<and>
                (\<forall>t. reach init t \<and> goal_test t \<longrightarrow> depth m \<le> depth t)"
      have "\<exists>r. astar_loop heappush heappop F E = Some (Inr r) \<and> ?goal r"
      proof (cases "F = []")
        case True
        have "\<not> goal_test t" if "reach init t" for t
        proof
          assume "goal_test t"
          from frontier_bound [OF init inv that this] True show False by simp
        qed
        then have "?goal None" by simp
        moreover have "astar_loop heappush heappop F E = Some (Inr None)"
          using True by (subst astar_loop.simps) simp
        ultimately show ?thesis by blast
      next
        case ne: False
        let ?m = "fst (heappop F)" and ?F0 = "snd (heappop F)"
        have sF: "set F = insert ?m (set ?F0)" and l0: "length ?F0 < length F"
          and mn: "\<And>y. y \<in> set F \<Longrightarrow> f ?m \<le> f y"
          using contract_pop [OF c iF ne] by simp_all
        have rm: "reach init ?m" using rF sF by simp
        have wm: "wf_state ?m" by (rule reach_wf [OF is_initial_wf [OF init] rm])
        show ?thesis
        proof (cases "goal_test ?m")
          case True
          have "depth ?m \<le> depth t" if "reach init t \<and> goal_test t" for t
          proof -
            from that frontier_bound [OF init inv] obtain u where "u \<in> set F" "f u \<le> depth t"
              by blast
            with mn [of u] reach_facts [OF init rm] hval_goal [OF wm True]
            show ?thesis by linarith
          qed
          with rm True have "?goal (Some ?m)" by simp
          moreover have "astar_loop heappush heappop F E = Some (Inr (Some ?m))"
            using ne True by (subst astar_loop.simps) simp
          ultimately show ?thesis by blast
        next
          case ng: False
          from generate_successors_wf [OF wm]
          obtain succs where gen: "generate_successors ?m = Inr succs" by blast
          obtain F' E' where p: "astar_push heappush ?F0 E succs = (F', E')"
            by (cases "astar_push heappush ?F0 E succs")
          have inv': "astar_inv init I F' E'"
            by (rule astar_step_inv [OF init c inv ne ng gen p])
          have n: "\<forall>k e. E k = Some e \<longrightarrow> 0 \<le> f e"
            using ent reach_f_nonneg(1) [OF init] by blast
          have ns: "\<forall>t \<in> set succs. key t \<in> keys \<and> 0 \<le> f t"
            using reach_step [OF rm gen] reach_f_nonneg [OF init] by blast
          from astar_push_measure [OF fin sub n ns p]
          have "(E' = E \<and> F' = ?F0) \<or> card (keys - dom E') < card (keys - dom E) \<or>
                (card (keys - dom E') = card (keys - dom E) \<and> cost_sum E' < cost_sum E)"
            by blast
          with l0 have "((F', E'), x) \<in> R"
            by (auto simp: R_def x)
          from 1 [OF this] inv'
          obtain r where "astar_loop heappush heappop F' E' = Some (Inr r)" "?goal r"
            by auto
          moreover have "astar_loop heappush heappop F E = astar_loop heappush heappop F' E'"
            using ne ng gen p by (subst astar_loop.simps) simp
          ultimately show ?thesis by auto
        qed
      qed
      then show "\<exists>r. astar_loop heappush heappop (fst x) (snd x) = Some (Inr r) \<and> ?goal r"
        by (simp add: x)
    qed
  qed
  from this [of "(F, E)"] inv show ?thesis by simp
qed

lemma astar_result:
  assumes init: "is_initial init" and c: "heap_contract I heappush heappop"
  shows "\<exists>r. astar heappush heappop init = Some (Inr r) \<and>
           (case r of
              None \<Rightarrow> \<forall>t. reach init t \<longrightarrow> \<not> goal_test t
            | Some m \<Rightarrow> reach init m \<and> goal_test m \<and>
                (\<forall>t. reach init t \<and> goal_test t \<longrightarrow> depth m \<le> depth t))"
  unfolding astar_def
proof (rule astar_loop_result [OF init c])
  have "I [init]" using c by (simp add: heap_contract_def)
  moreover have "key init \<in> keys" by (rule wf_state_key [OF is_initial_wf [OF init]])
  ultimately show "astar_inv init I [init] [board_str (board init) \<mapsto> init]"
    by (auto simp: astar_inv_def key_def reach_init split: if_splits)
qed

lemma dfs_inv_cover:
  assumes "dfs_inv init fr ex" "g \<in> set ex \<or> g = grid (board init)"
  shows "(\<exists>u \<in> set fr. grid (board u) = g) \<or> expanded init ex g"
  using assms unfolding dfs_inv_def by blast

lemma dfs_push_new:
  "dfs_push fr ex ts = (fr', ex') \<Longrightarrow>
     set fr \<subseteq> set fr' \<and> (\<forall>g \<in> set ex' - set ex. \<exists>u \<in> set fr'. grid (board u) = g)"
proof (induction ts arbitrary: fr ex)
  case Nil
  then show ?case by simp
next
  case (Cons t ts)
  show ?case
  proof (cases "grid (board t) \<in> set ex")
    case True
    with Cons.prems have "dfs_push fr ex ts = (fr', ex')" by simp
    from Cons.IH [OF this] show ?thesis .
  next
    case False
    with Cons.prems have "dfs_push (fr @ [t]) (ex @ [grid (board t)]) ts = (fr', ex')" by simp
    from Cons.IH [OF this]
    have 1: "set (fr @ [t]) \<subseteq> set fr'"
      and 2: "\<forall>g \<in> set ex' - set (ex @ [grid (board t)]). \<exists>u \<in> set fr'. grid (board u) = g"
      by simp_all
    have "\<exists>u \<in> set fr'. grid (board u) = g" if "g \<in> set ex' - set ex" for g
    proof (cases "g = grid (board t)")
      case True
      with 1 show ?thesis by auto
    next
      case False
      with that 2 show ?thesis by simp
    qed
    with 1 show ?thesis by auto
  qed
qed

lemma expanded_mono: "expanded init ex g \<Longrightarrow> set ex \<subseteq> set ex' \<Longrightarrow> expanded init ex' g"
  unfolding expanded_def by blast

lemma dfs_exhausted:
  assumes init: "wf_state init" and inv: "dfs_inv init [] ex" and r: "reach init s"
  shows "(s = init \<or> grid (board s) \<in> set ex) \<and> \<not> goal_test s"
  using r
proof (induction rule: reach.induct)
  case reach_init
  from dfs_inv_cover [OF inv, of "grid (board init)"]
  have "expanded init ex (grid (board init))" by simp
  then obtain e where "grid (board e) = grid (board init)" "\<not> goal_test e"
    by (auto simp: expanded_def)
  with goal_test_grid [of e init] show ?case by simp
next
  case (reach_step s succs t)
  from reach_step.IH have "grid (board s) \<in> set ex \<or> grid (board s) = grid (board init)"
    by auto
  from dfs_inv_cover [OF inv this] have "expanded init ex (grid (board s))" by simp
  then obtain e where e: "reach init e" "grid (board e) = grid (board s)"
    and ex: "\<And>succs t. generate_successors e = Inr succs \<Longrightarrow> t \<in> set succs \<Longrightarrow>
               grid (board t) \<in> set ex"
    by (auto simp: expanded_def)
  have ws: "wf_state s" by (rule reach_wf [OF init reach_step.hyps(1)])
  have we: "wf_state e" by (rule reach_wf [OF init e(1)])
  from generate_successors_wf [OF we] obtain succs'
    where ge: "generate_successors e = Inr succs'" by blast
  from successor_grid_bisim [OF ws we e(2) [symmetric] reach_step.hyps(2,3) ge]
  obtain t' where t': "t' \<in> set succs'" "grid (board t') = grid (board t)" by blast
  from ex [OF ge t'(1)] t'(2) have in_ex: "grid (board t) \<in> set ex" by simp
  with dfs_inv_cover [OF inv, of "grid (board t)"]
  have "expanded init ex (grid (board t))" by simp
  then obtain e2 where "grid (board e2) = grid (board t)" "\<not> goal_test e2"
    by (auto simp: expanded_def)
  with goal_test_grid [of e2 t] in_ex show ?case by simp
qed

lemma dfs_step_inv:
  assumes init: "wf_state init" and inv: "dfs_inv init fr ex" and ne: "fr \<noteq> []"
    and ng: "\<not> goal_test (last fr)" and gen: "generate_successors (last fr) = Inr succs"
    and p: "dfs_push (butlast fr) ex succs = (fr', ex')"
  shows "dfs_inv init fr' ex'"
proof -
  from inv have rf: "\<And>s. s \<in> set fr \<Longrightarrow> reach init s" and g: "set ex \<subseteq> grids"
    by (simp_all add: dfs_inv_def)
  note cov = dfs_inv_cover [OF inv]
  have lr: "reach init (last fr)" using ne rf by simp
  have sfr: "set fr = insert (last fr) (set (butlast fr))"
    using ne by (metis append_butlast_last_id list.simps(15) rotate1.simps(2) set_rotate1)
  from dfs_push_props [OF p]
  have e: "set ex' = set ex \<union> (\<lambda>t. grid (board t)) ` set succs"
    and s: "set fr' \<subseteq> set (butlast fr) \<union> set succs" by simp_all
  from dfs_push_new [OF p]
  have keep: "set (butlast fr) \<subseteq> set fr'"
    and new: "\<And>g. g \<in> set ex' - set ex \<Longrightarrow> \<exists>u \<in> set fr'. grid (board u) = g" by blast+
  have rs: "reach init t" if "t \<in> set succs" for t
    by (rule reach_step [OF lr gen that])
  have r': "\<forall>s \<in> set fr'. reach init s"
  proof
    fix s assume "s \<in> set fr'"
    with s have "s \<in> set (butlast fr) \<or> s \<in> set succs" by blast
    then show "reach init s" using rf rs sfr by auto
  qed
  have g': "set ex' \<subseteq> grids"
    using g e wf_state_grid [OF reach_wf [OF init rs]] by auto
  have el: "expanded init ex' (grid (board (last fr)))"
    unfolding expanded_def
  proof (intro exI [of _ "last fr"] conjI allI impI)
    fix succs2 t assume "generate_successors (last fr) = Inr succs2 \<and> t \<in> set succs2"
    with gen have "t \<in> set succs" by simp
    with e show "grid (board t) \<in> set ex'" by simp
  qed (simp_all add: lr ng)
  have cov': "(\<exists>u \<in> set fr'. grid (board u) = h) \<or> expanded init ex' h"
    if "h \<in> set ex' \<or> h = grid (board init)" for h
  proof (cases "h \<in> set ex \<or> h = grid (board init)")
    case True
    from cov [OF this] show ?thesis
    proof
      assume "\<exists>u \<in> set fr. grid (board u) = h"
      then obtain u where u: "u \<in> set fr" "grid (board u) = h" by blast
      with sfr have "u = last fr \<or> u \<in> set (butlast fr)" by simp
      then show ?thesis using el keep u(2) by auto
    next
      assume "expanded init ex h"
      from expanded_mono [OF this] e show ?thesis by simp
    qed
  next
    case False
    with that have "h \<in> set ex' - set ex" by simp
    from new [OF this] show ?thesis by simp
  qed
  from r' g' cov' show ?thesis unfolding dfs_inv_def by blast
qed

lemma dfs_loop_complete:
  assumes wf: "wf_state init" and inv: "dfs_inv init fr ex"
  shows "\<exists>r. dfs_loop fr ex = Some (Inr r) \<and>
           (case r of
              None \<Rightarrow> \<forall>t. reach init t \<longrightarrow> \<not> goal_test t
            | Some t \<Rightarrow> reach init t \<and> goal_test t)"
proof -
  define R where
    "R = inv_image (less_than <*lex*> less_than)
           (\<lambda>x :: state list \<times> char list list list. (card (grids - set (snd x)), length (fst x)))"
  have wfR: "wf R" unfolding R_def by (intro wf_inv_image wf_lex_prod wf_less_than)
  let ?goal = "\<lambda>r. case r of
              None \<Rightarrow> \<forall>t. reach init t \<longrightarrow> \<not> goal_test t
            | Some t \<Rightarrow> reach init t \<and> goal_test t"
  have "dfs_inv init (fst x) (snd x) \<longrightarrow>
        (\<exists>r. dfs_loop (fst x) (snd x) = Some (Inr r) \<and> ?goal r)" for x
  proof (induction x rule: wf_induct_rule [OF wfR])
    case (1 x)
    obtain fr ex where x: "x = (fr, ex)" by (cases x)
    show ?case
    proof
      assume "dfs_inv init (fst x) (snd x)"
      then have inv: "dfs_inv init fr ex" by (simp add: x)
      from inv have r: "\<And>s. s \<in> set fr \<Longrightarrow> reach init s" and g: "set ex \<subseteq> grids"
        by (simp_all add: dfs_inv_def)
      have "\<exists>r. dfs_loop fr ex = Some (Inr r) \<and> ?goal r"
      proof (cases "fr = []")
        case True
        from dfs_exhausted [OF wf] inv True have "?goal None" by simp
        moreover have "dfs_loop fr ex = Some (Inr None)"
          using True by (subst dfs_loop.simps) simp
        ultimately show ?thesis by blast
      next
        case False
        then have lr: "reach init (last fr)" using r by simp
        show ?thesis
        proof (cases "goal_test (last fr)")
          case True
          with lr have "?goal (Some (last fr))" by simp
          moreover have "dfs_loop fr ex = Some (Inr (Some (last fr)))"
            using False True by (subst dfs_loop.simps) simp
          ultimately show ?thesis by blast
        next
          case ng: False
          from generate_successors_wf [OF reach_wf [OF wf lr]]
          obtain succs where gen: "generate_successors (last fr) = Inr succs" by blast
          obtain fr' ex' where p: "dfs_push (butlast fr) ex succs = (fr', ex')"
            by (cases "dfs_push (butlast fr) ex succs")
          have inv': "dfs_inv init fr' ex'"
            by (rule dfs_step_inv [OF wf inv False ng gen p])
          then have g': "set ex' \<subseteq> grids" by (simp add: dfs_inv_def)
          from dfs_push_props [OF p]
          have e: "set ex' = set ex \<union> (\<lambda>t. grid (board t)) ` set succs"
            and u: "set ex' = set ex \<longrightarrow> fr' = butlast fr" by simp_all
          have "((fr', ex'), x) \<in> R"
          proof (cases "set ex' = set ex")
            case True
            with u False show ?thesis by (simp add: R_def x)
          next
            case ne: False
            with e have "set ex \<subset> set ex'" by blast
            with g' have "grids - set ex' \<subset> grids - set ex" by blast
            then have "card (grids - set ex') < card (grids - set ex)"
              by (intro psubset_card_mono) (simp_all add: finite_grids)
            then show ?thesis by (simp add: R_def x)
          qed
          from 1 [OF this] inv'
          obtain res where "dfs_loop fr' ex' = Some (Inr res)" "?goal res" by auto
          moreover have "dfs_loop fr ex = dfs_loop fr' ex'"
            using False ng gen p by (subst dfs_loop.simps) simp
          ultimately show ?thesis by auto
        qed
      qed
      then show "\<exists>r. dfs_loop (fst x) (snd x) = Some (Inr r) \<and> ?goal r" by (simp add: x)
    qed
  qed
  from this [of "(fr, ex)"] inv show ?thesis by simp
qed

lemma dfs_complete:
  assumes "wf_state init"
  shows "\<exists>r. dfs init = Some (Inr r) \<and>
           (case r of
              None \<Rightarrow> \<forall>t. reach init t \<longrightarrow> \<not> goal_test t
            | Some t \<Rightarrow> reach init t \<and> goal_test t)"
  unfolding dfs_def
  by (rule dfs_loop_complete [OF assms]) (auto simp: dfs_inv_def reach_init)

lemma stuck_reach: "reach stuck_state t \<Longrightarrow> t = stuck_state"
proof (induction rule: reach.induct)
  case reach_init
  show ?case by simp
next
  case (reach_step s succs t)
  have "generate_successors stuck_state = Inr []" by code_simp
  with reach_step show ?case by simp
qed

lemma near_initial: "is_initial near_state"
  by code_simp

lemma near_reach: "reach near_state near_goal"
proof -
  have "generate_successors near_state =
      Inr [near_goal,
        State (BoardObj [Piece False True 2 0 None, Piece True False 0 3 None]
          [''..2.'', ''....'', ''....'', ''11..'', ''11..'']) 2 1 (Some near_state),
        State (BoardObj [Piece False True 3 1 None, Piece True False 0 3 None]
          [''....'', ''...2'', ''....'', ''11..'', ''11..'']) 2 1 (Some near_state)]"
    by code_simp
  from reach_step [OF reach_init this] show ?thesis by simp
qed

section \<open>The library heap keeps the contract\<close>

lemma length_siftdown_loop [simp]:
  "length (siftdown_loop heap newitem startpos pos) = length heap"
  by (induction heap newitem startpos pos rule: siftdown_loop.induct)
    (subst siftdown_loop.simps, simp)

lemma swap_update:
  assumes "p < length h" "q < length h" "p \<noteq> q"
  shows "mset (h[q := h ! p, p := x]) = mset (h[q := x])"
proof -
  let ?k = "h[q := x]"
  have "mset (?k[p := ?k ! q, q := ?k ! p]) = mset ?k"
    by (rule mset_swap) (simp_all add: assms)
  moreover have "?k[p := ?k ! q, q := ?k ! p] = h[q := h ! p, p := x]"
    using assms by (simp add: list_update_swap [of p q])
  ultimately show ?thesis by simp
qed

lemma mset_siftdown_loop:
  "pos < length heap \<Longrightarrow>
   mset (siftdown_loop heap newitem startpos pos) = mset (heap[pos := newitem])"
proof (induction heap newitem startpos pos rule: siftdown_loop.induct)
  case (1 heap newitem startpos pos)
  let ?pp = "(pos - 1) div 2"
  show ?case
  proof (cases "pos > startpos \<and> state_lt newitem (heap ! ?pp)")
    case True
    then have pp: "?pp < pos" by auto
    with "1.prems" have l: "?pp < length heap" by simp
    from True "1.IH" l
    have "mset (siftdown_loop (heap[pos := heap ! ?pp]) newitem startpos ?pp) =
          mset (heap[pos := heap ! ?pp, ?pp := newitem])" by simp
    also have "\<dots> = mset (heap[pos := newitem])"
      using swap_update [OF l "1.prems"] pp by simp
    finally show ?thesis using True by (subst siftdown_loop.simps) simp
  next
    case False
    then show ?thesis by (subst siftdown_loop.simps) auto
  qed
qed

lemma parent_less: "0 < (i :: nat) \<Longrightarrow> (i - 1) div 2 < i"
  by arith

lemma siftdown_loop_heap:
  "pos < length h \<Longrightarrow>
   (\<forall>i. 0 < i \<and> i < length h \<and> i \<noteq> pos \<longrightarrow> f (h ! ((i - 1) div 2)) \<le> f (h ! i)) \<Longrightarrow>
   (\<forall>i. 0 < i \<and> i < length h \<and> (i - 1) div 2 = pos \<longrightarrow> f newitem \<le> f (h ! i)) \<Longrightarrow>
   (\<forall>i. 0 < i \<and> i < length h \<and> (i - 1) div 2 = pos \<and> 0 < pos \<longrightarrow>
      f (h ! ((pos - 1) div 2)) \<le> f (h ! i)) \<Longrightarrow>
   heap_inv (siftdown_loop h newitem 0 pos)"
proof (induction h newitem "0 :: nat" pos rule: siftdown_loop.induct)
  case (1 h newitem pos)
  let ?pp = "(pos - 1) div 2"
  note R1 = "1.prems"(2) [rule_format] and R2 = "1.prems"(3) [rule_format]
    and R3 = "1.prems"(4) [rule_format]
  show ?case
  proof (cases "0 < pos \<and> state_lt newitem (h ! ?pp)")
    case True
    then have pos: "0 < pos" and lt: "f newitem < f (h ! ?pp)" by (simp_all add: state_lt_def)
    have pp: "?pp < pos" using pos by (rule parent_less)
    have lpp: "?pp < length h" using pp "1.prems"(1) by simp
    let ?h = "h[pos := h ! ?pp]"
    have "heap_inv (siftdown_loop ?h newitem 0 ?pp)"
    proof (rule "1.hyps")
      show "0 < pos" by (rule pos)
      show "state_lt newitem (h ! ?pp)" using True by simp
      show "?pp < length ?h" using lpp by simp
      show "\<forall>i. 0 < i \<and> i < length ?h \<and> i \<noteq> ?pp \<longrightarrow> f (?h ! ((i - 1) div 2)) \<le> f (?h ! i)"
      proof (intro allI impI)
        fix i assume i: "0 < i \<and> i < length ?h \<and> i \<noteq> ?pp"
        show "f (?h ! ((i - 1) div 2)) \<le> f (?h ! i)"
        proof (cases "i = pos")
          case True
          then show ?thesis using pp "1.prems"(1) by simp
        next
          case ip: False
          show ?thesis
          proof (cases "(i - 1) div 2 = pos")
            case True
            with R3 [of i] i ip pos "1.prems"(1) show ?thesis by simp
          next
            case False
            with R1 [of i] i ip show ?thesis by simp
          qed
        qed
      qed
      show "\<forall>i. 0 < i \<and> i < length ?h \<and> (i - 1) div 2 = ?pp \<longrightarrow> f newitem \<le> f (?h ! i)"
      proof (intro allI impI)
        fix i assume i: "0 < i \<and> i < length ?h \<and> (i - 1) div 2 = ?pp"
        show "f newitem \<le> f (?h ! i)"
        proof (cases "i = pos")
          case True
          then show ?thesis using lt "1.prems"(1) by simp
        next
          case False
          with R1 [of i] i lt show ?thesis by simp
        qed
      qed
      show "\<forall>i. 0 < i \<and> i < length ?h \<and> (i - 1) div 2 = ?pp \<and> 0 < ?pp \<longrightarrow>
              f (?h ! ((?pp - 1) div 2)) \<le> f (?h ! i)"
      proof (intro allI impI)
        fix i assume i: "0 < i \<and> i < length ?h \<and> (i - 1) div 2 = ?pp \<and> 0 < ?pp"
        have gp: "(?pp - 1) div 2 < ?pp" using i by (intro parent_less) simp
        then have gpn: "(?pp - 1) div 2 \<noteq> pos" using pp by linarith
        have 1: "f (h ! ((?pp - 1) div 2)) \<le> f (h ! ?pp)"
          using R1 [of ?pp] i lpp pp by simp
        show "f (?h ! ((?pp - 1) div 2)) \<le> f (?h ! i)"
        proof (cases "i = pos")
          case True
          then show ?thesis using 1 gpn "1.prems"(1) by simp
        next
          case False
          with R1 [of i] i 1 gpn show ?thesis by simp
        qed
      qed
    qed
    then show ?thesis using True by (subst siftdown_loop.simps) simp
  next
    case False
    have "heap_inv (h[pos := newitem])"
      unfolding heap_inv_def
    proof (intro allI impI)
      fix i assume i: "0 < i \<and> i < length (h[pos := newitem])"
      show "f (h[pos := newitem] ! ((i - 1) div 2)) \<le> f (h[pos := newitem] ! i)"
      proof (cases "i = pos")
        case True
        with i False have "f (h ! ?pp) \<le> f newitem" by (simp add: state_lt_def)
        moreover have "?pp \<noteq> pos" using i True by auto
        ultimately show ?thesis using True "1.prems"(1) by simp
      next
        case ip: False
        show ?thesis
        proof (cases "(i - 1) div 2 = pos")
          case True
          with R2 [of i] i ip "1.prems"(1) show ?thesis by simp
        next
          case False
          with R1 [of i] i ip show ?thesis by simp
        qed
      qed
    qed
    then show ?thesis using False by (subst siftdown_loop.simps) auto
  qed
qed

lemma siftup_loop_props:
  "pos < length h \<Longrightarrow>
   (\<forall>i. 0 < i \<and> i < length h \<and> \<not> (pos = 0 \<and> i \<le> 2) \<longrightarrow>
      f (h ! ((i - 1) div 2)) \<le> f (h ! i)) \<Longrightarrow>
   heap_inv (fst (siftup_loop h pos)) \<and>
   length (fst (siftup_loop h pos)) = length h \<and>
   snd (siftup_loop h pos) < length h \<and>
   length h \<le> 2 * snd (siftup_loop h pos) + 1 \<and>
   mset ((fst (siftup_loop h pos))[snd (siftup_loop h pos) := x]) = mset (h[pos := x])"
proof (induction h pos rule: siftup_loop.induct)
  case (1 h pos)
  note J = "1.prems"(2) [rule_format]
  show ?case
  proof (cases "2 * pos + 1 < length h")
    case False
    have "heap_inv h"
      unfolding heap_inv_def
    proof (intro allI impI)
      fix i assume i: "0 < i \<and> i < length h"
      with False have "\<not> (pos = 0 \<and> i \<le> 2)" by auto
      with J [of i] i show "f (h ! ((i - 1) div 2)) \<le> f (h ! i)" by simp
    qed
    with False "1.prems"(1) show ?thesis by (subst (1 2 3 4 5 6) siftup_loop.simps) simp
  next
    case True
    define c where "c =
      (if 2 * pos + 2 < length h \<and> \<not> state_lt (h ! (2 * pos + 1)) (h ! (2 * pos + 2))
       then 2 * pos + 2 else 2 * pos + 1)"
    have c: "c = 2 * pos + 1 \<or> c = 2 * pos + 2" "c < length h" "pos < c"
      using True by (auto simp: c_def)
    have small: "f (h ! c) \<le> f (h ! i)"
      if "i = 2 * pos + 1 \<or> i = 2 * pos + 2" "i < length h" for i
      using that by (auto simp: c_def state_lt_def)
    let ?h = "h[pos := h ! c]"
    have unf: "siftup_loop h pos = siftup_loop ?h c"
      using True by (subst siftup_loop.simps) (simp add: c_def Let_def)
    have inv: "f (?h ! ((i - 1) div 2)) \<le> f (?h ! i)" if i: "0 < i \<and> i < length ?h" for i
    proof (cases "i = pos")
      case True
      with i have pos: "0 < pos" by simp
      have pp: "(pos - 1) div 2 < pos" by (rule parent_less [OF pos])
      have "f (h ! ((pos - 1) div 2)) \<le> f (h ! pos)" using J [of pos] pos "1.prems"(1) by simp
      moreover have "(c - 1) div 2 = pos" using c(1) by auto
      then have "f (h ! pos) \<le> f (h ! c)" using J [of c] c pos by simp
      ultimately show ?thesis using True pp "1.prems"(1) by simp
    next
      case ip: False
      show ?thesis
      proof (cases "(i - 1) div 2 = pos")
        case True
        with i have "i = 2 * pos + 1 \<or> i = 2 * pos + 2" by auto
        from small [OF this] i True ip "1.prems"(1) show ?thesis by simp
      next
        case False
        with i have "\<not> (pos = 0 \<and> i \<le> 2)" by auto
        with J [of i] i ip False show ?thesis by simp
      qed
    qed
    have "heap_inv (fst (siftup_loop ?h c)) \<and>
          length (fst (siftup_loop ?h c)) = length ?h \<and>
          snd (siftup_loop ?h c) < length ?h \<and>
          length ?h \<le> 2 * snd (siftup_loop ?h c) + 1 \<and>
          mset ((fst (siftup_loop ?h c))[snd (siftup_loop ?h c) := x]) = mset (?h[c := x])"
    proof (rule "1.IH" [OF True c_def])
      show "c < length ?h" using c(2) by simp
      show "\<forall>i. 0 < i \<and> i < length ?h \<and> \<not> (c = 0 \<and> i \<le> 2) \<longrightarrow>
              f (?h ! ((i - 1) div 2)) \<le> f (?h ! i)"
        using inv by blast
    qed
    moreover have "mset (?h[c := x]) = mset (h[pos := x])"
      using swap_update [of c h pos x] c "1.prems"(1) by simp
    ultimately show ?thesis unfolding unf by simp
  qed
qed

lemma heap_root_min:
  assumes "heap_inv h" "i < length h"
  shows "f (h ! 0) \<le> f (h ! i)"
  using assms(2)
proof (induction i rule: less_induct)
  case (less i)
  show ?case
  proof (cases "i = 0")
    case True
    then show ?thesis by simp
  next
    case False
    then have p: "(i - 1) div 2 < i" by (intro parent_less) simp
    from less.IH [OF p] less.prems p have "f (h ! 0) \<le> f (h ! ((i - 1) div 2))" by simp
    moreover from assms(1) False less.prems have "f (h ! ((i - 1) div 2)) \<le> f (h ! i)"
      by (simp add: heap_inv_def)
    ultimately show ?thesis by simp
  qed
qed

lemma heap_inv_butlast: "heap_inv h \<Longrightarrow> heap_inv (butlast h)"
  unfolding heap_inv_def
proof (intro allI impI)
  fix i assume h: "\<forall>i. 0 < i \<and> i < length h \<longrightarrow> f (h ! ((i - 1) div 2)) \<le> f (h ! i)"
    and i: "0 < i \<and> i < length (butlast h)"
  then have "(i - 1) div 2 < length (butlast h)" using parent_less [of i] by simp
  moreover have "i < length h" using i by auto
  with h [rule_format, of i] i have "f (h ! ((i - 1) div 2)) \<le> f (h ! i)" by simp
  ultimately show "f (butlast h ! ((i - 1) div 2)) \<le> f (butlast h ! i)"
    using i by (simp add: nth_butlast)
qed

lemma heapq_heappush_correct:
  assumes "heap_inv h"
  shows "heap_inv (heapq_heappush h x)" and "mset (heapq_heappush h x) = add_mset x (mset h)"
proof -
  let ?k = "h @ [x]"
  have e: "heapq_heappush h x = siftdown_loop ?k x 0 (length h)"
    by (simp add: heapq_heappush_def siftdown_def)
  show "heap_inv (heapq_heappush h x)"
    unfolding e
  proof (rule siftdown_loop_heap)
    show "length h < length ?k" by simp
    show "\<forall>i. 0 < i \<and> i < length ?k \<and> i \<noteq> length h \<longrightarrow> f (?k ! ((i - 1) div 2)) \<le> f (?k ! i)"
    proof (intro allI impI)
      fix i assume i: "0 < i \<and> i < length ?k \<and> i \<noteq> length h"
      then have l: "i < length h" by simp
      moreover have "(i - 1) div 2 < length h" using parent_less [of i] i l by simp
      ultimately show "f (?k ! ((i - 1) div 2)) \<le> f (?k ! i)"
        using assms i by (simp add: nth_append heap_inv_def)
    qed
    show "\<forall>i. 0 < i \<and> i < length ?k \<and> (i - 1) div 2 = length h \<longrightarrow> f x \<le> f (?k ! i)"
      by auto
    show "\<forall>i. 0 < i \<and> i < length ?k \<and> (i - 1) div 2 = length h \<and> 0 < length h \<longrightarrow>
            f (?k ! ((length h - 1) div 2)) \<le> f (?k ! i)"
      by auto
  qed
  have "mset (siftdown_loop ?k x 0 (length h)) = mset (?k[length h := x])"
    by (rule mset_siftdown_loop) simp
  then show "mset (heapq_heappush h x) = add_mset x (mset h)"
    unfolding e by simp
qed

lemma heapq_heappop_correct:
  assumes inv: "heap_inv h" and ne: "h \<noteq> []"
  shows "heap_inv (snd (heapq_heappop h)) \<and>
         mset h = add_mset (fst (heapq_heappop h)) (mset (snd (heapq_heappop h))) \<and>
         fst (heapq_heappop h) = h ! 0"
proof -
  let ?rest = "butlast h" and ?last = "last h"
  have h: "h = ?rest @ [?last]" using ne by simp
  show ?thesis
  proof (cases "?rest = []")
    case True
    then have 1: "heapq_heappop h = (?last, [])" by (simp add: heapq_heappop_def)
    from True h have 2: "h = [] @ [?last]" by simp
    have "mset h = {#?last#}" "h ! 0 = ?last" by (subst 2, simp)+
    with 1 show ?thesis by (simp add: heap_inv_def)
  next
    case False
    let ?h0 = "?rest[0 := ?last]"
    have lr: "0 < length ?rest" using False by (cases ?rest) simp_all
    have l0: "0 < length ?h0" using lr by (simp only: length_list_update)
    have J: "\<forall>i. 0 < i \<and> i < length ?h0 \<and> \<not> ((0 :: nat) = 0 \<and> i \<le> 2) \<longrightarrow>
              f (?h0 ! ((i - 1) div 2)) \<le> f (?h0 ! i)"
    proof (intro allI impI)
      fix i assume i: "0 < i \<and> i < length ?h0 \<and> \<not> ((0 :: nat) = 0 \<and> i \<le> 2)"
      then have "0 < (i - 1) div 2" by auto
      moreover from heap_inv_butlast [OF inv] i
      have "f (?rest ! ((i - 1) div 2)) \<le> f (?rest ! i)" by (simp add: heap_inv_def)
      ultimately show "f (?h0 ! ((i - 1) div 2)) \<le> f (?h0 ! i)" using i by simp
    qed
    define r where "r = siftup_loop ?h0 0"
    from siftup_loop_props [OF l0 J, of ?last]
    have p: "heap_inv (fst r)" "length (fst r) = length ?h0" "snd r < length ?h0"
      "length ?h0 \<le> 2 * snd r + 1" "mset ((fst r)[snd r := ?last]) = mset (?h0[0 := ?last])"
      unfolding r_def by simp_all
    let ?k = "(fst r)[snd r := ?last]"
    have sr: "snd r < length (fst r)" using p(2,3) by simp
    have e: "heapq_heappop h = (?rest ! 0, siftdown_loop ?k ?last 0 (snd r))"
      using False sr lr by (simp add: heapq_heappop_def siftup_def siftdown_def Let_def r_def)
    have leaf: "(i - 1) div 2 \<noteq> snd r" if "0 < i" "i < length ?k" for i
      using that p(2,4) by auto
    have hk: "heap_inv (siftdown_loop ?k ?last 0 (snd r))"
    proof (rule siftdown_loop_heap)
      show "snd r < length ?k" using sr by simp
      show "\<forall>i. 0 < i \<and> i < length ?k \<and> i \<noteq> snd r \<longrightarrow> f (?k ! ((i - 1) div 2)) \<le> f (?k ! i)"
      proof (intro allI impI)
        fix i assume i: "0 < i \<and> i < length ?k \<and> i \<noteq> snd r"
        with leaf [of i] p(1) show "f (?k ! ((i - 1) div 2)) \<le> f (?k ! i)"
          by (simp add: heap_inv_def)
      qed
      show "\<forall>i. 0 < i \<and> i < length ?k \<and> (i - 1) div 2 = snd r \<longrightarrow> f ?last \<le> f (?k ! i)"
        using leaf by blast
      show "\<forall>i. 0 < i \<and> i < length ?k \<and> (i - 1) div 2 = snd r \<and> 0 < snd r \<longrightarrow>
              f (?k ! ((snd r - 1) div 2)) \<le> f (?k ! i)"
        using leaf by blast
    qed
    have "mset (siftdown_loop ?k ?last 0 (snd r)) = mset (?k[snd r := ?last])"
      by (rule mset_siftdown_loop) (simp add: sr)
    also have "\<dots> = mset ?h0" using p(5) by simp
    finally have m: "mset (siftdown_loop ?k ?last 0 (snd r)) = mset ?h0" .
    have "mset ?h0 = add_mset ?last (mset ?rest - {#?rest ! 0#})"
      using lr by (simp add: mset_update)
    moreover have "?rest ! 0 \<in># mset ?rest" using lr by simp
    ultimately have "add_mset (?rest ! 0) (mset ?h0) = add_mset ?last (mset ?rest)"
      by simp
    moreover have "mset h = add_mset ?last (mset ?rest)"
      by (subst h) simp
    ultimately have mh: "mset h = add_mset (?rest ! 0) (mset ?h0)" by simp
    have r0: "?rest ! 0 = h ! 0" using lr by (simp add: nth_butlast)
    from hk mh m r0 show ?thesis by (simp add: e)
  qed
qed

lemma heapq_contract: "heap_contract heap_inv heapq_heappush heapq_heappop"
  unfolding heap_contract_def
proof (intro conjI allI impI)
  fix x show "heap_inv [x]" by (simp add: heap_inv_def)
next
  fix h x assume "heap_inv h"
  then show "heap_inv (heapq_heappush h x)" and "mset (heapq_heappush h x) = add_mset x (mset h)"
    by (rule heapq_heappush_correct)+
next
  fix h :: "state list" assume h: "heap_inv h" "h \<noteq> []"
  note pop = heapq_heappop_correct [OF h]
  from pop show "heap_inv (snd (heapq_heappop h))"
    and "mset h = add_mset (fst (heapq_heappop h)) (mset (snd (heapq_heappop h)))"
    by simp_all
  show "\<forall>y \<in> set h. \<not> state_lt y (fst (heapq_heappop h))"
  proof
    fix y assume "y \<in> set h"
    then obtain i where "i < length h" "y = h ! i" by (auto simp: in_set_conv_nth)
    with heap_root_min [OF h(1), of i] pop
    show "\<not> state_lt y (fst (heapq_heappop h))" by (simp add: state_lt_def)
  qed
qed

section \<open>The claims\<close>

text \<open>
  Claim C1 (move-generation completeness) says that every legal direction of every piece
  yields a successor. The goal piece's four directions are an \<open>if\<close>/\<open>elif\<close> chain in
  \<open>generate_successors\<close>, so only the first legal one is generated. On the board read
  from a file whose only piece is the goal piece anchored at \<open>(1, 2)\<close>, moving right and
  moving down are both legal and moving down solves the puzzle; the only successor
  generated is the move to the right, and both searches report that there is no solution.
\<close>

theorem goal_piece_first_legal_move_only:
  "read_from_file [''....'', ''....'', ''.11.'', ''.11.'', ''....''] = Inr bug_board \<and>
   board_inv (pieces bug_board) \<and>
   is_initial bug_state \<and>
   legal bug_board (Piece True False 1 2 None) MoveRight \<and>
   legal bug_board (Piece True False 1 2 None) MoveDown \<and>
   move_piece (Piece True False 1 2 None) MoveDown = Piece True False 1 3 None \<and>
   Board [Piece True False 1 3 None] = Inr (board solved_state) \<and>
   goal_test solved_state \<and>
   generate_successors bug_state =
     Inr [State (BoardObj [Piece True False 2 2 None]
            [''....'', ''....'', ''..11'', ''..11'', ''....'']) 3 1 (Some bug_state)] \<and>
   dfs bug_state = Some (Inr None) \<and>
   astar heapq_heappush heapq_heappop bug_state = Some (Inr None)"
  by code_simp

text \<open>
  Claim C3 (move-generation soundness). For a state whose board satisfies the data-model
  invariants, \<open>generate_successors\<close> returns, and the board of every successor is a
  constructed board whose pieces are of the four kinds, with exactly one goal piece,
  footprints that share no cell and lie within \<open>[0,3] \<times> [0,4]\<close>; each cell of its
  rendered grid carries the symbol of the one piece covering it, or a dot.
\<close>

theorem successors_preserve_invariants:
  assumes "wf_state s"
  shows "\<exists>succs. generate_successors s = Inr succs \<and>
           (\<forall>t \<in> set succs.
              Board (pieces (board t)) = Inr (board t) \<and>
              list_all canonical (pieces (board t)) \<and>
              length (filter is_goal (pieces (board t))) = 1 \<and>
              distinct (all_cells (pieces (board t))) \<and>
              list_all in_board (all_cells (pieces (board t))) \<and>
              (\<forall>c. in_board c \<longrightarrow> cell_at (grid (board t)) c = render (pieces (board t)) c))"
proof -
  from generate_successors_wf [OF assms] obtain succs
    where g: "generate_successors s = Inr succs" and w: "\<forall>t \<in> set succs. wf_state t"
    by blast
  have "Board (pieces (board t)) = Inr (board t) \<and>
        list_all canonical (pieces (board t)) \<and>
        length (filter is_goal (pieces (board t))) = 1 \<and>
        distinct (all_cells (pieces (board t))) \<and>
        list_all in_board (all_cells (pieces (board t))) \<and>
        (\<forall>c. in_board c \<longrightarrow> cell_at (grid (board t)) c = render (pieces (board t)) c)"
    if "t \<in> set succs" for t
  proof -
    from w that have wt: "board_inv (pieces (board t))" "Board (pieces (board t)) = Inr (board t)"
      by (simp_all add: wf_state_def)
    from Board_render_grid(3) [OF wt]
    have "\<forall>c. in_board c \<longrightarrow> cell_at (grid (board t)) c = render (pieces (board t)) c"
      by blast
    with wt show ?thesis by (simp add: board_inv_def all_cells_def)
  qed
  with g show ?thesis by blast
qed

theorem successors_preserve_invariants_witness:
  "wf_state ex_state \<and> generate_successors ex_state = Inr ex_succs \<and>
   Board (pieces (board (ex_succs ! 2))) = Inr (board (ex_succs ! 2)) \<and>
   list_all canonical (pieces (board (ex_succs ! 2))) \<and>
   length (filter is_goal (pieces (board (ex_succs ! 2)))) = 1 \<and>
   distinct (all_cells (pieces (board (ex_succs ! 2)))) \<and>
   list_all in_board (all_cells (pieces (board (ex_succs ! 2))))"
proof -
  have m: "ex_succs ! 2 \<in> set ex_succs" by (simp add: ex_succs_def)
  from successors_preserve_invariants [OF ex_wf] ex_gen m ex_wf show ?thesis by auto
qed

text \<open>
  Claim C4 (heuristic-goal agreement). On a board satisfying the data-model invariants,
  \<open>manhattan\<close> is \<open>|gx - 1| + |gy - 3|\<close> for the goal anchor \<open>(gx, gy)\<close>; it is \<open>0\<close> if and
  only if \<open>goal_test\<close> succeeds, which is the case if and only if the goal piece is
  anchored at \<open>(1, 3)\<close>.
\<close>

theorem manhattan_zero_iff_goal_test:
  assumes "wf_state s"
  shows "\<exists>gx gy. get_goal (board s) = Some (gx, gy) \<and>
           manhattan (board s) = Inr (\<bar>gx - 1\<bar> + \<bar>gy - 3\<bar>) \<and>
           (manhattan (board s) = Inr 0 \<longleftrightarrow> goal_test s) \<and>
           (goal_test s \<longleftrightarrow> gx = 1 \<and> gy = 3)"
proof -
  let ?ps = "pieces (board s)"
  from assms have inv: "board_inv ?ps" and b: "Board ?ps = Inr (board s)"
    by (simp_all add: wf_state_def)
  from inv have "length (filter is_goal ?ps) = 1" by (simp add: board_inv_def)
  then obtain p where p: "filter is_goal ?ps = [p]" "is_goal p"
    by (rule one_goal)
  have gg: "get_goal (board s) = Some (coord_x p, coord_y p)"
    by (simp add: get_goal_def get_goal_of_filter p(1))
  have m: "manhattan (board s) = Inr (\<bar>coord_x p - 1\<bar> + \<bar>coord_y p - 3\<bar>)"
    by (simp add: manhattan_def gg)
  have "goal_test s \<longleftrightarrow> (1, 3) \<in> set (cells p) \<and> (2, 4) \<in> set (cells p)"
    unfolding goal_test_cells
    using goal_cell_iff [OF inv b _ p(1)] by (simp add: in_board_def)
  also have "\<dots> \<longleftrightarrow> coord_x p = 1 \<and> coord_y p = 3"
    using p(2) by (auto simp: cells_eq)
  finally have gt: "goal_test s \<longleftrightarrow> coord_x p = 1 \<and> coord_y p = 3" .
  have "manhattan (board s) = Inr 0 \<longleftrightarrow> coord_x p = 1 \<and> coord_y p = 3"
    unfolding m by auto
  with gg m gt show ?thesis by simp
qed

theorem manhattan_zero_iff_goal_test_witness:
  "wf_state solved_state \<and> manhattan (board solved_state) = Inr 0 \<and> goal_test solved_state \<and>
   wf_state ex_state \<and> manhattan (board ex_state) = Inr 3 \<and> \<not> goal_test ex_state"
proof -
  have w: "wf_state solved_state" by code_simp
  have m: "manhattan (board solved_state) = Inr 0" by code_simp
  have m': "manhattan (board ex_state) = Inr 3" by code_simp
  from manhattan_zero_iff_goal_test [OF w] m have "goal_test solved_state" by blast
  moreover from manhattan_zero_iff_goal_test [OF ex_wf] m' have "\<not> goal_test ex_state" by auto
  ultimately show ?thesis using w m m' ex_wf by blast
qed

text \<open>
  Claim C5 (successor bookkeeping). Every state that \<open>generate_successors\<close> returns for
  a state \<open>s\<close> has depth \<open>depth s + 1\<close>, f value \<open>manhattan\<close> of its own board plus
  \<open>depth s + 1\<close>, and parent \<open>s\<close>.
\<close>

theorem successor_bookkeeping:
  assumes "generate_successors s = Inr succs" "t \<in> set succs"
  shows "depth t = depth s + 1 \<and>
         (\<exists>h. manhattan (board t) = Inr h \<and> f t = h + depth s + 1) \<and>
         parent t = Some s"
proof -
  from generate_successors_mem [OF assms] obtain i q where "mk_successor s i q = Inr t" by blast
  from mk_successor_Inr [OF this] show ?thesis by blast
qed

theorem successor_bookkeeping_witness:
  "generate_successors ex_state = Inr ex_succs \<and> ex_succs ! 1 \<in> set ex_succs \<and>
   depth (ex_succs ! 1) = depth ex_state + 1 \<and>
   (\<exists>h. manhattan (board (ex_succs ! 1)) = Inr h \<and> f (ex_succs ! 1) = h + depth ex_state + 1) \<and>
   parent (ex_succs ! 1) = Some ex_state"
proof -
  have m: "ex_succs ! 1 \<in> set ex_succs" by (simp add: ex_succs_def)
  from successor_bookkeeping [OF ex_gen m] ex_gen m show ?thesis by blast
qed

text \<open>
  Claim C6 (frame property of a move). The piece list of a successor is one new piece,
  equal to some piece \<open>p\<close> of the board in \<open>is_goal\<close>, \<open>is_single\<close> and \<open>orientation\<close> and
  anchored exactly one cell away from it, followed by all the other pieces of the board,
  unchanged and in their order. The pieces are those of the data model, as
  \<open>read_from_file\<close> and \<open>generate_successors\<close> build them.
\<close>

theorem successor_frame:
  assumes can: "list_all canonical (pieces (board s))"
    and gen: "generate_successors s = Inr succs" and t: "t \<in> set succs"
  shows "\<exists>i q. i < length (pieces (board s)) \<and>
           pieces (board t) =
             q # take i (pieces (board s)) @ drop (Suc i) (pieces (board s)) \<and>
           is_goal q = is_goal (pieces (board s) ! i) \<and>
           is_single q = is_single (pieces (board s) ! i) \<and>
           orientation q = orientation (pieces (board s) ! i) \<and>
           \<bar>coord_x q - coord_x (pieces (board s) ! i)\<bar> +
             \<bar>coord_y q - coord_y (pieces (board s) ! i)\<bar> = 1"
proof -
  let ?ps = "pieces (board s)"
  from generate_successors_mem [OF gen t] obtain i q
    where m: "(i, q) \<in> set (all_moves (board s))" and mk: "mk_successor s i q = Inr t" by blast
  from m have i: "i < length ?ps" and q: "q \<in> set (piece_moves (board s) (?ps ! i))"
    by (simp_all add: mem_all_moves)
  from can i have "canonical (?ps ! i)" by (simp add: list_all_length)
  from q piece_moves_generated [OF this, of "board s"]
  obtain d where d: "q = move_piece (?ps ! i) d" by auto
  from mk_successor_Inr [OF mk] have "pieces (board t) = q # others ?ps i"
    by (auto dest: Board_pieces)
  moreover have "\<bar>coord_x q - coord_x (?ps ! i)\<bar> + \<bar>coord_y q - coord_y (?ps ! i)\<bar> = 1"
    unfolding d by (cases d) (simp_all add: move_piece_def)
  ultimately show ?thesis
    using i by (auto simp: others_def d move_piece_def)
qed

theorem successor_frame_witness:
  "list_all canonical (pieces (board ex_state)) \<and>
   generate_successors ex_state = Inr ex_succs \<and> ex_succs ! 0 \<in> set ex_succs \<and>
   (\<exists>i q. i < length (pieces (board ex_state)) \<and>
      pieces (board (ex_succs ! 0)) =
        q # take i (pieces (board ex_state)) @ drop (Suc i) (pieces (board ex_state)) \<and>
      is_goal q = is_goal (pieces (board ex_state) ! i) \<and>
      is_single q = is_single (pieces (board ex_state) ! i) \<and>
      orientation q = orientation (pieces (board ex_state) ! i) \<and>
      \<bar>coord_x q - coord_x (pieces (board ex_state) ! i)\<bar> +
        \<bar>coord_y q - coord_y (pieces (board ex_state) ! i)\<bar> = 1)"
proof -
  have c: "list_all canonical (pieces (board ex_state))" by code_simp
  have m: "ex_succs ! 0 \<in> set ex_succs" by (simp add: ex_succs_def)
  from successor_frame [OF c ex_gen m] c ex_gen m show ?thesis by blast
qed

text \<open>
  Claim C7 (structural equality and hashing). Two boards constructed from piece lists that
  hold the same pieces in any order, the footprints sharing no cell and lying within the
  board (the footprint invariants of the data model), have the same rendered grid, are
  equal under \<open>__eq__\<close> and have the same hash; and any board with that grid is equal to
  them and hashes the same, whatever its piece list.
\<close>

theorem board_eq_hash_structural:
  assumes ok: "footprints_ok ps" and perm: "mset qs = mset ps" and a: "Board ps = Inr a"
  shows "\<exists>b. Board qs = Inr b \<and> grid a = grid b \<and> board_eq a b \<and>
           board_hash H a = board_hash H b \<and>
           (\<forall>c. grid c = grid a \<longrightarrow> board_eq c b \<and> board_hash H c = board_hash H b)"
proof -
  have okq: "footprints_ok qs" by (rule footprints_ok_perm [OF perm ok])
  from Board_render_footprints [OF ok] a obtain g
    where g: "a = BoardObj ps g" "shape_ok g" "\<forall>d. in_board d \<longrightarrow> cell_at g d = render ps d"
    by auto
  from Board_render_footprints [OF okq] obtain h
    where h: "Board qs = Inr (BoardObj qs h)" "shape_ok h"
      "\<forall>d. in_board d \<longrightarrow> cell_at h d = render qs d"
    by blast
  have "g = h"
  proof (rule grid_ext [OF g(2) h(2)])
    fix d assume d: "in_board d"
    show "cell_at g d = cell_at h d"
      by (simp only: g(3) [rule_format, OF d] h(3) [rule_format, OF d] render_perm [OF perm ok])
  qed
  then show ?thesis
    using h(1) g(1) by (auto simp: board_eq_def board_str_def board_hash_def)
qed

theorem board_eq_hash_structural_witness:
  "footprints_ok ex_pieces \<and> mset (rev ex_pieces) = mset ex_pieces \<and>
   Board ex_pieces = Inr ex_board \<and>
   (\<exists>b. Board (rev ex_pieces) = Inr b \<and> grid ex_board = grid b \<and> board_eq ex_board b \<and>
      board_hash (\<lambda>s. int (length s)) ex_board = board_hash (\<lambda>s. int (length s)) b)"
proof -
  have i: "footprints_ok ex_pieces" by code_simp
  have p: "mset (rev ex_pieces) = mset ex_pieces" by simp
  have b: "Board ex_pieces = Inr ex_board" by code_simp
  from board_eq_hash_structural [OF i p b, of "\<lambda>s. int (length s)"] i p b
  show ?thesis by blast
qed

text \<open>
  Claim C2 (A* optimality). For an initial state (depth 0, no parent, f the heuristic of its
  board) on a board satisfying the data-model invariants: if a state passing \<open>goal_test\<close> is reachable through
  \<open>generate_successors\<close>, then \<open>astar\<close> returns such a state of minimum depth among all
  reachable goal states, \<open>dfs\<close> returns a reachable goal state too, and the depth of the
  state \<open>astar\<close> returns is at most the depth of the one \<open>dfs\<close> returns.
\<close>

theorem astar_optimal:
  assumes "is_initial init" "reach init g" "goal_test g"
  shows "\<exists>m d. astar heapq_heappush heapq_heappop init = Some (Inr (Some m)) \<and>
           reach init m \<and> goal_test m \<and>
           (\<forall>t. reach init t \<and> goal_test t \<longrightarrow> depth m \<le> depth t) \<and>
           dfs init = Some (Inr (Some d)) \<and> reach init d \<and> goal_test d \<and>
           depth m \<le> depth d"
proof -
  from astar_result [OF assms(1) heapq_contract] obtain r
    where r: "astar heapq_heappush heapq_heappop init = Some (Inr r)"
      "case r of
         None \<Rightarrow> \<forall>t. reach init t \<longrightarrow> \<not> goal_test t
       | Some m \<Rightarrow> reach init m \<and> goal_test m \<and>
           (\<forall>t. reach init t \<and> goal_test t \<longrightarrow> depth m \<le> depth t)"
    by blast
  from r(2) assms(2,3) obtain m where m: "r = Some m" "reach init m" "goal_test m"
    "\<forall>t. reach init t \<and> goal_test t \<longrightarrow> depth m \<le> depth t"
    by (cases r) auto
  from dfs_complete [OF is_initial_wf [OF assms(1)]] obtain q
    where q: "dfs init = Some (Inr q)"
      "case q of None \<Rightarrow> \<forall>t. reach init t \<longrightarrow> \<not> goal_test t | Some t \<Rightarrow> reach init t \<and> goal_test t"
    by blast
  from q(2) assms(2,3) obtain d where d: "q = Some d" "reach init d" "goal_test d"
    by (cases q) auto
  from m(4) d(2,3) have "depth m \<le> depth d" by blast
  with r(1) m q(1) d show ?thesis by blast
qed

theorem astar_optimal_witness:
  "is_initial near_state \<and> reach near_state near_goal \<and> goal_test near_goal \<and>
   (\<exists>m d. astar heapq_heappush heapq_heappop near_state = Some (Inr (Some m)) \<and>
      reach near_state m \<and> goal_test m \<and>
      (\<forall>t. reach near_state t \<and> goal_test t \<longrightarrow> depth m \<le> depth t) \<and>
      dfs near_state = Some (Inr (Some d)) \<and> reach near_state d \<and> goal_test d \<and>
      depth m \<le> depth d)"
proof -
  have g: "goal_test near_goal" by code_simp
  from astar_optimal [OF near_initial near_reach g] near_initial near_reach g
  show ?thesis by blast
qed

text \<open>
  Claim C8 (no-solution behaviour). If no state passing \<open>goal_test\<close> is reachable from
  the initial state through \<open>generate_successors\<close>, both \<open>dfs\<close> and \<open>astar\<close> return
  \<open>None\<close> without raising, and \<open>get_solution\<close> on \<open>None\<close> writes an empty file and
  prints the count 0.
\<close>

theorem no_solution_returns_none:
  assumes "is_initial init" "\<not> (\<exists>t. reach init t \<and> goal_test t)"
  shows "dfs init = Some (Inr None) \<and> astar heapq_heappush heapq_heappop init = Some (Inr None) \<and>
         get_solution None = ([], 0)"
proof -
  from astar_result [OF assms(1) heapq_contract] obtain r
    where r: "astar heapq_heappush heapq_heappop init = Some (Inr r)"
      "case r of
         None \<Rightarrow> \<forall>t. reach init t \<longrightarrow> \<not> goal_test t
       | Some m \<Rightarrow> reach init m \<and> goal_test m \<and>
           (\<forall>t. reach init t \<and> goal_test t \<longrightarrow> depth m \<le> depth t)"
    by blast
  from r(2) assms(2) have "r = None" by (cases r) auto
  moreover from dfs_complete [OF is_initial_wf [OF assms(1)]] obtain q
    where q: "dfs init = Some (Inr q)"
      "case q of None \<Rightarrow> \<forall>t. reach init t \<longrightarrow> \<not> goal_test t | Some t \<Rightarrow> reach init t \<and> goal_test t"
    by blast
  from q(2) assms(2) have "q = None" by (cases q) auto
  ultimately show ?thesis using r(1) q(1) by (simp add: get_solution_None)
qed

theorem no_solution_returns_none_witness:
  "is_initial stuck_state \<and> \<not> (\<exists>t. reach stuck_state t \<and> goal_test t) \<and>
   dfs stuck_state = Some (Inr None) \<and>
   astar heapq_heappush heapq_heappop stuck_state = Some (Inr None) \<and>
   get_solution None = ([], 0)"
proof -
  have i: "is_initial stuck_state" by code_simp
  have ng: "\<not> goal_test stuck_state" by code_simp
  have n: "\<not> (\<exists>t. reach stuck_state t \<and> goal_test t)"
    using stuck_reach ng by blast
  from no_solution_returns_none [OF i n] i n
  show ?thesis by blast
qed

text \<open>
  Claim C9 (termination). For every initial state on a board satisfying the data-model
  invariants, \<open>dfs\<close> and \<open>astar\<close> both return (a run that never returns is the value
  \<open>None\<close> of the partial functions) and neither raises. The proofs use the measures of
  the claim: for \<open>dfs\<close> the number of grids not yet in \<open>explored\<close>, then the length of
  the frontier; for \<open>astar\<close> the number of boards not yet in \<open>explored\<close>, then the sum
  of the recorded non-negative f values, then the length of the frontier.
\<close>

theorem searches_terminate:
  assumes "is_initial init"
  shows "(\<exists>r. dfs init = Some (Inr r)) \<and> (\<exists>r. astar heapq_heappush heapq_heappop init = Some (Inr r))"
  using dfs_complete [OF is_initial_wf [OF assms]] astar_result [OF assms heapq_contract]
  by blast

theorem searches_terminate_witness:
  "is_initial ex_state \<and> (\<exists>r. dfs ex_state = Some (Inr r)) \<and>
   (\<exists>r. astar heapq_heappush heapq_heappop ex_state = Some (Inr r))"
proof -
  have i: "is_initial ex_state" by code_simp
  from searches_terminate [OF i] i
  show ?thesis by blast
qed

text \<open>
  Claim C10 (parent chain). Every state created from the initial state by repeated
  \<open>generate_successors\<close> moves has a parent chain that starts at the initial state, ends
  at the state itself, has \<open>depth + 1\<close> states, and in which each state is a successor
  that \<open>generate_successors\<close> returns for the state before it. A state returned by
  \<open>dfs\<close> or \<open>astar\<close> is such a state; the path that \<open>get_solution\<close> collects holds
  the \<open>depth + 1\<close> boards of its chain, the terminal board first and the initial board
  last; they are written from the initial board to the terminal board and \<open>depth + 1\<close>
  is printed.
\<close>

theorem parent_chain:
  assumes "is_initial init"
  shows "(\<forall>t. reach init t \<longrightarrow>
            chain t ! 0 = init \<and> last (chain t) = t \<and> int (length (chain t)) = depth t + 1 \<and>
            (\<forall>k. Suc k < length (chain t) \<longrightarrow>
               (\<exists>succs. generate_successors (chain t ! k) = Inr succs \<and>
                  chain t ! Suc k \<in> set succs))) \<and>
         (\<forall>t. dfs init = Some (Inr (Some t)) \<or>
               astar heapq_heappush heapq_heappop init = Some (Inr (Some t)) \<longrightarrow>
            reach init t \<and> path_to_root t = rev (map board (chain t)) \<and>
            int (length (path_to_root t)) = depth t + 1 \<and>
            last (path_to_root t) = board init \<and> hd (path_to_root t) = board t \<and>
            get_solution (Some t) =
              (concat (map (\<lambda>b. grid_text (grid b)) (rev (path_to_root t))), depth t + 1))"
proof (intro conjI allI impI)
  fix t assume "dfs init = Some (Inr (Some t)) \<or>
    astar heapq_heappush heapq_heappop init = Some (Inr (Some t))"
  then have r: "reach init t"
  proof
    assume "dfs init = Some (Inr (Some t))"
    with dfs_complete [OF is_initial_wf [OF assms]] show ?thesis by auto
  next
    assume "astar heapq_heappush heapq_heappop init = Some (Inr (Some t))"
    with astar_result [OF assms heapq_contract] show ?thesis by auto
  qed
  then show "reach init t" .
  show p: "path_to_root t = rev (map board (chain t))" by (rule path_to_root_chain)
  from assms have "parent init = None" "depth init = 0" by (simp_all add: is_initial_def)
  from reach_chain [OF this r] have c: "chain t ! 0 = init" "last (chain t) = t"
    and l: "int (length (chain t)) = depth t + 1" by simp_all
  have ne: "chain t \<noteq> []" by (subst chain_unfold) simp
  show "int (length (path_to_root t)) = depth t + 1" using l by (simp add: p)
  show "last (path_to_root t) = board init"
    using c(1) ne by (simp add: p last_rev hd_map hd_conv_nth)
  show "hd (path_to_root t) = board t"
    using c(2) ne by (simp add: p hd_rev last_map)
  show "get_solution (Some t) =
      (concat (map (\<lambda>b. grid_text (grid b)) (rev (path_to_root t))), depth t + 1)"
    using l by (simp add: get_solution_Some p comp_def)
next
  fix t assume r: "reach init t"
  from assms have "parent init = None" "depth init = 0" by (simp_all add: is_initial_def)
  from reach_chain [OF this r]
  show "chain t ! 0 = init" "last (chain t) = t" "int (length (chain t)) = depth t + 1" by simp_all
  fix k assume "Suc k < length (chain t)"
  with reach_chain [OF \<open>parent init = None\<close> \<open>depth init = 0\<close> r]
  show "\<exists>succs. generate_successors (chain t ! k) = Inr succs \<and> chain t ! Suc k \<in> set succs"
    by blast
qed

theorem parent_chain_witness:
  "is_initial near_state \<and>
   astar heapq_heappush heapq_heappop near_state = Some (Inr (Some near_goal)) \<and>
   reach near_state near_goal \<and> chain near_goal = [near_state, near_goal] \<and>
   path_to_root near_goal = [board near_goal, board near_state] \<and>
   int (length (path_to_root near_goal)) = depth near_goal + 1 \<and>
   get_solution (Some near_goal) =
     (concat (map (\<lambda>b. grid_text (grid b)) (rev (path_to_root near_goal))), depth near_goal + 1)"
proof -
  have a: "astar heapq_heappush heapq_heappop near_state = Some (Inr (Some near_goal))"
    by code_simp
  have c: "chain near_goal = [near_state, near_goal]" by code_simp
  have p: "path_to_root near_goal = [board near_goal, board near_state]" by code_simp
  from parent_chain [OF near_initial] a
  have "reach near_state near_goal \<and>
        int (length (path_to_root near_goal)) = depth near_goal + 1 \<and>
        get_solution (Some near_goal) =
          (concat (map (\<lambda>b. grid_text (grid b)) (rev (path_to_root near_goal))),
           depth near_goal + 1)"
    by blast
  with near_initial a c p show ?thesis by blast
qed

end
